theory Spec2Isabelle
  imports Complex_Main "HOL-Library.Multiset" "HOL-Library.Log_Nat"
begin

section \<open>Arrays and errors\<close>

text \<open>
  The functions of \<^verbatim>\<open>datasets.py\<close> work on two-dimensional numpy arrays. An array is
  modelled as the list of its rows; its entries are real numbers (finite floats are
  read as the reals they denote; the graph builder compares them, tests them against
  zero and adds an entry to its mirror entry). The empty list is the array of shape
  \<open>(0, 0)\<close>; arrays without rows but with columns are not represented.
  Every Python exception is a value of type \<open>error\<close>.
\<close>

datatype error = IndexError | AssertionError | AttributeError | ValueError | NetworkXError

type_synonym ndarray = "real list list"

definition nrows :: "'a list list \<Rightarrow> nat" where
  \<comment> \<open>\<^verbatim>\<open>a.shape[0]\<close>\<close>
  "nrows a = length a"

definition ncols :: "'a list list \<Rightarrow> nat" where
  \<comment> \<open>\<^verbatim>\<open>a.shape[1]\<close>\<close>
  "ncols a = (case a of [] \<Rightarrow> 0 | r # _ \<Rightarrow> length r)"

definition has_shape :: "nat \<times> nat \<Rightarrow> 'a list list \<Rightarrow> bool" where
  \<comment> \<open>the list of rows is a rectangular array with this \<^verbatim>\<open>shape\<close>\<close>
  "has_shape s a = (length a = fst s \<and> list_all (\<lambda>r. length r = snd s) a)"

definition T :: "'a list list \<Rightarrow> 'a list list" where
  \<comment> \<open>\<^verbatim>\<open>a.T\<close>\<close>
  "T a = map (\<lambda>j. map (\<lambda>i. a ! i ! j) [0..<nrows a]) [0..<ncols a]"

fun sequence_err :: "(error + 'a) list \<Rightarrow> error + 'a list" where
  \<comment> \<open>statements run in order; the first exception ends the run\<close>
  "sequence_err [] = Inr []"
| "sequence_err (r # rs) =
     (case r of
        Inl e \<Rightarrow> Inl e
      | Inr v \<Rightarrow> (case sequence_err rs of Inl e \<Rightarrow> Inl e | Inr vs \<Rightarrow> Inr (v # vs)))"

section \<open>Descriptor bank: \<^verbatim>\<open>calculate_stats_features\<close>\<close>

text \<open>
  The sixteen descriptors are functions of numpy, scipy, the \<^verbatim>\<open>entropy\<close> package and
  \<^verbatim>\<open>nolds\<close>; none of them is code of this repository. The bank takes them as one
  parameter \<open>desc\<close>, which maps the descriptor's name and a series to the value it
  returns or the exception it raises. The type \<open>'v\<close> of the values is left open
  (floats, with NaN and the infinities).
\<close>

datatype descriptor =
    Mean | Std | Min | Max | Skew | Kurtosis
  | AppEntropy | PermEntropy | SampleEntropy | SpectralEntropy | SvdEntropy
  | DetrendedFluctuation | HiguchiFd | KatzFd | PetrosianFd | HurstRs

definition apply_along_axis1 :: "(real list \<Rightarrow> error + 'v) \<Rightarrow> ndarray \<Rightarrow> error + 'v list" where
  \<comment> \<open>\<^verbatim>\<open>np.apply_along_axis(f, 1, timeseries)\<close>, and the reductions with \<^verbatim>\<open>axis=1\<close>\<close>
  "apply_along_axis1 f timeseries = sequence_err (map f timeseries)"

definition merged_stats_order :: "descriptor list" where
  \<comment> \<open>the tuple \<^verbatim>\<open>merged_stats\<close>, which is also the order of computation\<close>
  "merged_stats_order =
     [Mean, Std, Min, Max, Skew, Kurtosis, AppEntropy, PermEntropy, SampleEntropy,
      SpectralEntropy, SvdEntropy, DetrendedFluctuation, HiguchiFd, KatzFd, PetrosianFd,
      HurstRs]"

definition calculate_stats_features ::
    "(descriptor \<Rightarrow> real list \<Rightarrow> error + 'v) \<Rightarrow> ndarray \<Rightarrow> error + 'v list list" where
  "calculate_stats_features desc timeseries =
     (if \<not> ncols timeseries > nrows timeseries then Inl AssertionError
      else case sequence_err (map (\<lambda>d. apply_along_axis1 (desc d) timeseries) merged_stats_order) of
             Inl e \<Rightarrow> Inl e
           | Inr merged_stats \<Rightarrow> Inr (T merged_stats))"

section \<open>Thresholded-graph builder: \<^verbatim>\<open>threshold_adj_array\<close>, \<^verbatim>\<open>create_thresholded_graph\<close>\<close>

text \<open>
  \<^verbatim>\<open>threshold_adj_array\<close> writes into its argument twice
  (\<^verbatim>\<open>adj_array[...] = 0\<close>, lines 45 and 50) before line 53 rebinds the local name to a
  new array. The model therefore returns a pair: the caller's array as the call leaves
  it, and the returned array or the exception.

  \<^verbatim>\<open>int(x)\<close> truncates towards zero; \<^verbatim>\<open>xs[k:]\<close> with a negative \<open>k\<close> keeps the last
  \<open>-k\<close> elements.
\<close>

definition py_int :: "real \<Rightarrow> int" where
  "py_int x = (if 0 \<le> x then \<lfloor>x\<rfloor> else \<lceil>x\<rceil>)"

definition slice_from :: "int \<Rightarrow> 'a list \<Rightarrow> 'a list" where
  "slice_from k xs = (if 0 \<le> k then drop (nat k) xs else drop (length xs - nat (- k)) xs)"

definition ndindex :: "'a list list \<Rightarrow> (nat \<times> nat) list" where
  \<comment> \<open>all positions of an array, in row-major order\<close>
  "ndindex a = List.product [0..<nrows a] [0..<ncols a]"

definition tril_indices :: "nat \<Rightarrow> (nat \<times> nat) list" where
  \<comment> \<open>\<^verbatim>\<open>np.tril_indices(n)\<close>: the lower triangle with the diagonal\<close>
  "tril_indices n = filter (\<lambda>(i, j). j \<le> i) (List.product [0..<n] [0..<n])"

definition triu_indices1 :: "nat \<Rightarrow> (nat \<times> nat) list" where
  \<comment> \<open>\<^verbatim>\<open>np.triu_indices(n, k=1)\<close>: the upper triangle without the diagonal\<close>
  "triu_indices1 n = filter (\<lambda>(i, j). i < j) (List.product [0..<n] [0..<n])"

definition diag_indices :: "nat \<Rightarrow> (nat \<times> nat) list" where
  "diag_indices n = map (\<lambda>i. (i, i)) [0..<n]"

definition in_bounds :: "'a list list \<Rightarrow> nat \<times> nat \<Rightarrow> bool" where
  "in_bounds a p = (fst p < length a \<and> snd p < length (a ! fst p))"

definition put :: "ndarray \<Rightarrow> (nat \<times> nat) list \<Rightarrow> real \<Rightarrow> ndarray" where
  "put a idx v = fold (\<lambda>(i, j) b. b[i := (b ! i)[j := v]]) idx a"

definition setitem :: "ndarray \<Rightarrow> (nat \<times> nat) list \<Rightarrow> real \<Rightarrow> error + ndarray" where
  \<comment> \<open>\<^verbatim>\<open>a[(rows, cols)] = v\<close>: an index out of bounds raises and nothing is written\<close>
  "setitem a idx v = (if list_all (in_bounds a) idx then Inr (put a idx v) else Inl IndexError)"

definition getitem :: "ndarray \<Rightarrow> (nat \<times> nat) list \<Rightarrow> real list" where
  \<comment> \<open>\<^verbatim>\<open>a[(rows, cols)]\<close>\<close>
  "getitem a idx = map (\<lambda>(i, j). a ! i ! j) idx"

definition where_nonzero :: "ndarray \<Rightarrow> (nat \<times> nat) list" where
  \<comment> \<open>\<^verbatim>\<open>np.where(a)\<close>: the positions of the nonzero entries, in row-major order\<close>
  "where_nonzero a = filter (\<lambda>(i, j). a ! i ! j \<noteq> 0) (ndindex a)"

definition add :: "ndarray \<Rightarrow> ndarray \<Rightarrow> ndarray" where
  \<comment> \<open>\<^verbatim>\<open>a + b\<close> for arrays of one shape\<close>
  "add a b = map2 (map2 (+)) a b"

text \<open>
  \<^verbatim>\<open>np.argsort\<close> returns a permutation of the positions that sorts the values in
  ascending order; which of two equal values comes first is not fixed by numpy's default
  sort. The builder takes the sort as a parameter \<open>argsort\<close>, and \<open>argsort_spec\<close> is all
  that is assumed of it. \<open>stable_argsort\<close> is one such sort.
\<close>

definition argsort_spec :: "(real list \<Rightarrow> nat list) \<Rightarrow> bool" where
  "argsort_spec argsort =
     (\<forall>vs. mset (argsort vs) = mset [0..<length vs] \<and> sorted (map ((!) vs) (argsort vs)))"

definition stable_argsort :: "real list \<Rightarrow> nat list" where
  "stable_argsort vs = sort_key ((!) vs) [0..<length vs]"

text \<open>
  Line 42 is float arithmetic: \<^verbatim>\<open>threshold / 100.0\<close> is rounded to a double, and so is its
  product with the number of node pairs. \<open>round_double\<close> is the rounding of IEEE 754
  binary64, to the nearest number with a 53-bit significand, ties to the even one
  (\<open>rne\<close>); it is written for magnitudes from \<open>2 ^ -76\<close> up, the smallest nonzero one on
  line 42 being 1/100, and overflow is not modelled. The number of node pairs
  \<^verbatim>\<open>num_nodes * (num_nodes - 1) / 2\<close> is a double without rounding while it is below
  \<open>2 ^ 53\<close>. An array with \<open>2 ^ 53\<close> node pairs or more cannot be held in memory (it has more
  than \<open>10 ^ 16\<close> entries); for such sizes the product is taken over the reals.
\<close>

definition rne :: "real \<Rightarrow> int" where
  \<comment> \<open>round to the nearest integer, ties to even\<close>
  "rne x =
     (let f = \<lfloor>x\<rfloor>; d = x - of_int f
      in if d < 1 / 2 then f else if 1 / 2 < d then f + 1 else if even f then f else f + 1)"

definition round_double :: "real \<Rightarrow> real" where
  "round_double x =
     (let S = \<bar>x\<bar> * 2 ^ 128;
          u = 2 ^ (floorlog 2 (nat \<lfloor>S\<rfloor>) - 53)
      in sgn x * (of_int (rne (S / u)) * u / 2 ^ 128))"

definition num_to_filter :: "int \<Rightarrow> nat \<Rightarrow> int" where
  \<comment> \<open>line 42\<close>
  "num_to_filter threshold num_nodes =
     (let pairs = num_nodes * (num_nodes - 1) div 2
      in if pairs < 2 ^ 53
         then py_int (round_double (round_double (real_of_int threshold / 100) * real pairs))
         else py_int (real_of_int threshold / 100 * real pairs))"

definition threshold_adj_array ::
    "(real list \<Rightarrow> nat list) \<Rightarrow> ndarray \<Rightarrow> int \<Rightarrow> nat \<Rightarrow> ndarray \<times> (error + ndarray)" where
  "threshold_adj_array argsort adj_array threshold num_nodes =
     (case setitem adj_array (tril_indices num_nodes) 0 of
        Inl e \<Rightarrow> (adj_array, Inl e)
      | Inr a1 \<Rightarrow>
          (let indices = where_nonzero a1;
               sorted_indices = rev (argsort (getitem a1 indices))
           in case setitem a1
                  (slice_from (num_to_filter threshold num_nodes)
                     (map ((!) indices) sorted_indices)) 0 of
                Inl e \<Rightarrow> (a1, Inl e)
              | Inr a2 \<Rightarrow> (a2, setitem (add a2 (T a2)) (diag_indices num_nodes) 1)))"

text \<open>
  \<^verbatim>\<open>nx.from_numpy_array(A, create_using=nx.DiGraph)\<close> rejects an array that is not
  square, makes one node per row and one edge \<open>(u, v)\<close> with weight \<open>A[u, v]\<close> for every
  nonzero entry. \<open>edges\<close> is the view \<^verbatim>\<open>G.edges()\<close> read by the callers.
\<close>

record digraph =
  nodes :: "nat list"
  weighted_edges :: "(nat \<times> nat \<times> real) list"

definition edges :: "digraph \<Rightarrow> (nat \<times> nat) list" where
  "edges G = map (\<lambda>(u, v, w). (u, v)) (weighted_edges G)"

definition from_numpy_array :: "ndarray \<Rightarrow> error + digraph" where
  "from_numpy_array A =
     (if \<not> has_shape (nrows A, nrows A) A then Inl NetworkXError
      else Inr \<lparr>nodes = [0..<nrows A],
                weighted_edges = map (\<lambda>(u, v). (u, v, A ! u ! v)) (where_nonzero A)\<rparr>)"

definition create_thresholded_graph ::
    "(real list \<Rightarrow> nat list) \<Rightarrow> ndarray \<Rightarrow> int \<Rightarrow> nat \<Rightarrow> ndarray \<times> (error + digraph)" where
  "create_thresholded_graph argsort adj_array threshold num_nodes =
     (case threshold_adj_array argsort adj_array threshold num_nodes of
        (caller_array, Inl e) \<Rightarrow> (caller_array, Inl e)
      | (caller_array, Inr adj_array') \<Rightarrow> (caller_array, from_numpy_array adj_array'))"

text \<open>Quantities the claims speak of.\<close>

definition number_of_proper_edges :: "digraph \<Rightarrow> nat" where
  \<comment> \<open>the edges that are not self-loops\<close>
  "number_of_proper_edges G = length (filter (\<lambda>(u, v). u \<noteq> v) (edges G))"

definition count_nonzero_upper :: "ndarray \<Rightarrow> nat \<Rightarrow> nat" where
  \<comment> \<open>the nonzero entries above the diagonal\<close>
  "count_nonzero_upper a n = length (filter (\<lambda>(i, j). a ! i ! j \<noteq> 0) (triu_indices1 n))"

definition ranked_positions :: "(real list \<Rightarrow> nat list) \<Rightarrow> ndarray \<Rightarrow> (nat \<times> nat) list" where
  \<comment> \<open>the nonzero positions by descending value: \<^verbatim>\<open>indices[.][sorted_indices]\<close>\<close>
  "ranked_positions argsort a =
     map ((!) (where_nonzero a)) (rev (argsort (getitem a (where_nonzero a))))"

section \<open>Class balancing: \<^verbatim>\<open>random_downsample\<close>\<close>

text \<open>
  A sample is a \<^verbatim>\<open>Data\<close> object; the function reads its label \<^verbatim>\<open>y\<close> only, the other
  attributes are carried along. \<^verbatim>\<open>default_rng(seed=0).choice(n, size=k, replace=False)\<close>
  is numpy's; it enters as a parameter \<open>choice\<close> of the seed, \<open>n\<close> and \<open>k\<close>, of which
  \<open>choice_spec\<close> is all that is assumed: for \<open>k \<le> n\<close> it returns \<open>k\<close> distinct numbers
  below \<open>n\<close> (for \<open>k > n\<close> numpy raises, which the function never reaches, since it
  swaps the two counts first). \<open>last_k_choice\<close> is one such function.
\<close>

record 'a data =
  data_y :: int
  data_rest :: 'a

definition choice_spec :: "(nat \<Rightarrow> nat \<Rightarrow> nat \<Rightarrow> nat list) \<Rightarrow> bool" where
  "choice_spec choice =
     (\<forall>seed n k. k \<le> n \<longrightarrow>
        length (choice seed n k) = k \<and> distinct (choice seed n k) \<and>
        set (choice seed n k) \<subseteq> {..<n})"

definition last_k_choice :: "nat \<Rightarrow> nat \<Rightarrow> nat \<Rightarrow> nat list" where
  "last_k_choice seed n k = take k (rev [0..<n])"

definition numbers_sample :: "(nat \<Rightarrow> nat \<Rightarrow> nat \<Rightarrow> nat list) \<Rightarrow> 'a data list \<Rightarrow> nat list" where
  \<comment> \<open>lines 62 to 75: the indices drawn, the local variable \<^verbatim>\<open>numbers_sample\<close>\<close>
  "numbers_sample choice data_list =
     (let negative_num = length (filter (\<lambda>x. data_y x = 0) data_list);
          positive_num = length (filter (\<lambda>x. data_y x = 1) data_list);
          (negative_num', positive_num') =
             (if positive_num > negative_num then (positive_num, negative_num)
              else (negative_num, positive_num))
      in choice 0 negative_num' positive_num')"

definition random_downsample ::
    "(nat \<Rightarrow> nat \<Rightarrow> nat \<Rightarrow> nat list) \<Rightarrow> 'a data list \<Rightarrow> 'a data list" where
  "random_downsample choice data_list =
     (let negative_num = length (filter (\<lambda>x. data_y x = 0) data_list);
          positive_num = length (filter (\<lambda>x. data_y x = 1) data_list);
          smallest_value = (if positive_num < negative_num then 1 else 0);
          highest_value = (if positive_num < negative_num then 0 else 1);
          y_0 = filter (\<lambda>x. data_y x = highest_value) data_list;
          data_list' = filter (\<lambda>x. data_y x = smallest_value) data_list;
          y_0' = map snd (filter (\<lambda>(id, elem). id \<in> set (numbers_sample choice data_list))
                            (enumerate 0 y_0))
      in data_list' @ y_0')"

definition count_label :: "int \<Rightarrow> 'a data list \<Rightarrow> nat" where
  \<comment> \<open>how many samples carry a label\<close>
  "count_label l data_list = length (filter (\<lambda>x. data_y x = l) data_list)"

section \<open>Normaliser: \<^verbatim>\<open>normalise_timeseries\<close>\<close>

text \<open>
  Modelled from the spec: the enumeration \<^verbatim>\<open>Normalisation\<close> of \<^verbatim>\<open>utils.py\<close>, which is
  not among the source files. The spec gives the normalisation modes none, per-node
  and pooled; \<^verbatim>\<open>datasets.py\<close> names them \<^verbatim>\<open>NONE\<close>, \<^verbatim>\<open>ROI\<close> and \<^verbatim>\<open>SUBJECT\<close>.
\<close>

datatype Normalisation = NONE | ROI | SUBJECT

text \<open>
  \<^verbatim>\<open>RobustScaler\<close> is scikit-learn's: \<^verbatim>\<open>fit\<close> rejects an array without rows or without
  columns and stores, for every column, the median and the interquartile range (1 where
  the range is 0); \<^verbatim>\<open>transform\<close> subtracts the one and divides by the other. Median and
  percentiles are taken over the reals, with numpy's linear interpolation.
\<close>

record RobustScaler =
  center :: "real list"
  scale :: "real list"

definition median :: "real list \<Rightarrow> real" where
  "median xs =
     (let s = sort xs; n = length xs
      in if even n then (s ! (n div 2 - 1) + s ! (n div 2)) / 2 else s ! (n div 2))"

definition percentile :: "real \<Rightarrow> real list \<Rightarrow> real" where
  "percentile q xs =
     (let s = sort xs;
          pos = q / 100 * real (length xs - 1);
          lo = nat \<lfloor>pos\<rfloor>;
          hi = min (lo + 1) (length xs - 1)
      in s ! lo + (pos - real lo) * (s ! hi - s ! lo))"

definition handle_zeros_in_scale :: "real \<Rightarrow> real" where
  "handle_zeros_in_scale s = (if s = 0 then 1 else s)"

definition fit :: "ndarray \<Rightarrow> error + RobustScaler" where
  "fit X =
     (if nrows X = 0 \<or> ncols X = 0 then Inl ValueError
      else Inr \<lparr>center = map median (T X),
                scale = map (\<lambda>c. handle_zeros_in_scale (percentile 75 c - percentile 25 c)) (T X)\<rparr>)"

definition transform :: "RobustScaler \<Rightarrow> ndarray \<Rightarrow> ndarray" where
  "transform scaler X =
     map (\<lambda>row. map (\<lambda>j. (row ! j - center scaler ! j) / scale scaler ! j) [0..<length row]) X"

definition shape :: "'a list list \<Rightarrow> nat \<times> nat" where
  "shape a = (nrows a, ncols a)"

definition flatten :: "ndarray \<Rightarrow> real list" where
  "flatten a = concat a"

definition reshape_column :: "real list \<Rightarrow> ndarray" where
  "reshape_column xs = map (\<lambda>x. [x]) xs"

definition reshape :: "nat \<times> nat \<Rightarrow> ndarray \<Rightarrow> error + ndarray" where
  "reshape s a =
     (if length (concat a) \<noteq> fst s * snd s then Inl ValueError
      else Inr (map (\<lambda>i. take (snd s) (drop (i * snd s) (concat a))) [0..<fst s]))"

definition normalise_timeseries :: "ndarray \<Rightarrow> Normalisation \<Rightarrow> error + ndarray" where
  "normalise_timeseries timeseries normalisation =
     (if normalisation = ROI then
        (case fit timeseries of
           Inl e \<Rightarrow> Inl e
         | Inr scaler \<Rightarrow> Inr (T (transform scaler timeseries)))
      else if normalisation = SUBJECT then
        (let flatten_timeseries = reshape_column (flatten timeseries)
         in case fit flatten_timeseries of
              Inl e \<Rightarrow> Inl e
            | Inr scaler \<Rightarrow>
                (case reshape (shape timeseries) (transform scaler flatten_timeseries) of
                   Inl e \<Rightarrow> Inl e
                 | Inr a \<Rightarrow> Inr (T a)))
      else Inr (T timeseries))"

section \<open>Sample assembler: the descriptor encoding of \<^verbatim>\<open>__create_data_object\<close>\<close>

text \<open>
  Lines 211 to 216, the branch for \<^verbatim>\<open>EncodingStrategy.STATS\<close>: two shape assertions around
  the descriptor bank, the replacement of every NaN by 0, and the assertion that no NaN
  is left. A descriptor returns a float: a finite number, NaN or an infinity.
\<close>

datatype float64 = Finite real | NaN | PosInf | NegInf

definition isnan :: "float64 \<Rightarrow> bool" where
  "isnan v = (v = NaN)"

definition nan_to_zero :: "float64 list list \<Rightarrow> float64 list list" where
  \<comment> \<open>line 215: \<^verbatim>\<open>timeseries[np.isnan(timeseries)] = 0\<close>\<close>
  "nan_to_zero a = map (map (\<lambda>v. if isnan v then Finite 0 else v)) a"



definition ramp_block :: ndarray where
  "ramp_block = [map real [0..<1200], map (\<lambda>t. real (t mod 7)) [0..<1200]]"

section \<open>Dataset orchestration: \<^verbatim>\<open>UKBDataset.process\<close>\<close>

text \<open>
  The loop of lines 328 to 358 runs over the subjects with the arrays \<^verbatim>\<open>np.loadtxt\<close>
  returned for them. Lines 337 to 358, which build the sample of a subject that passed
  the shape assertion, are the parameter \<open>assemble\<close>. As the code stands, line 346 calls
  \<^verbatim>\<open>self.__create_thresholded_graph\<close>, a name that Python mangles to
  \<^verbatim>\<open>_UKBDataset__create_thresholded_graph\<close> and that no class defines, so the step
  raises; \<open>UKBDataset_assemble\<close> is that behaviour. The loop keeps no count of the
  subjects it passes over: its only state is \<^verbatim>\<open>data_list\<close>.
\<close>

text \<open>
  Modelled from the spec: the enumeration \<^verbatim>\<open>ConnType\<close> of \<^verbatim>\<open>utils.py\<close>, which is not
  among the source files. The spec gives the connectivity kinds raw-series-derived and
  structural-track-derived; \<^verbatim>\<open>datasets.py\<close> names them \<^verbatim>\<open>FMRI\<close> and \<^verbatim>\<open>STRUCT\<close>.
\<close>

datatype ConnType = FMRI | STRUCT

fun process_loop ::
    "ConnType \<Rightarrow> (nat \<Rightarrow> ndarray \<Rightarrow> error + 'd) \<Rightarrow> (nat \<times> ndarray) list \<Rightarrow> 'd list
       \<Rightarrow> error + 'd list" where
  "process_loop connectivity_type assemble [] data_list = Inr data_list"
| "process_loop connectivity_type assemble ((person, ts) # filtered_people) data_list =
     (if connectivity_type = FMRI then
        (if nrows ts < 84 then process_loop connectivity_type assemble filtered_people data_list
         else
           (let ts' = (if ncols ts = 523 then map (take 490) ts else ts)
            in if shape ts' \<noteq> (84, 490) then Inl AssertionError
               else case assemble person ts' of
                      Inl e \<Rightarrow> Inl e
                    | Inr data \<Rightarrow>
                        process_loop connectivity_type assemble filtered_people
                          (data_list @ [data])))
      else process_loop connectivity_type assemble filtered_people data_list)"

definition UKBDataset_process ::
    "ConnType \<Rightarrow> (nat \<Rightarrow> ndarray \<Rightarrow> error + 'd) \<Rightarrow> (nat \<times> ndarray) list \<Rightarrow> error + 'd list" where
  "UKBDataset_process connectivity_type assemble filtered_people =
     process_loop connectivity_type assemble filtered_people []"

definition UKBDataset_assemble :: "nat \<Rightarrow> ndarray \<Rightarrow> error + unit" where
  "UKBDataset_assemble person ts = Inl AttributeError"

section \<open>Helper lemmas\<close>

lemma sequence_err_Inr:
  "list_all (\<lambda>r. \<exists>v. r = Inr v) rs \<Longrightarrow> sequence_err rs = Inr (map projr rs)"
  by (induction rs) auto

lemma apply_along_axis1_Inr:
  "\<forall>row\<in>set ts. \<exists>v. f row = Inr v \<Longrightarrow>
   apply_along_axis1 f ts = Inr (map (\<lambda>row. projr (f row)) ts)"
  unfolding apply_along_axis1_def
  by (subst sequence_err_Inr) (auto simp: list_all_iff o_def)

lemma length_merged_stats_order: "length merged_stats_order = 16"
  by (simp add: merged_stats_order_def)

lemma T_nth:
  "j < ncols a \<Longrightarrow> T a ! j = map (\<lambda>i. a ! i ! j) [0..<nrows a]"
  by (simp add: T_def)


lemma stable_argsort_spec: "argsort_spec stable_argsort"
  by (simp add: argsort_spec_def stable_argsort_def)

lemma has_shape_nth:
  "has_shape (r, c) a \<longleftrightarrow> length a = r \<and> (\<forall>i<r. length (a ! i) = c)"
  by (auto simp: has_shape_def list_all_length)

lemma has_shape_nrows: "has_shape (r, c) a \<Longrightarrow> nrows a = r"
  by (simp add: has_shape_def nrows_def)

lemma has_shape_ncols: "has_shape (r, c) a \<Longrightarrow> 0 < r \<Longrightarrow> ncols a = c"
  by (cases a) (auto simp: has_shape_def ncols_def)

lemma square_ncols: "has_shape (d, d) a \<Longrightarrow> ncols a = d"
  by (cases a) (auto simp: has_shape_def ncols_def)

lemma put_step_row_length:
  "length (b[i := (b ! i)[j := v]] ! k) = length (b ! k)"
proof (cases "i < length b")
  case True
  then show ?thesis by (cases "i = k") simp_all
next
  case False
  then show ?thesis by (simp add: list_update_beyond)
qed

lemma put_step_nth:
  "k < length b \<Longrightarrow> l < length (b ! k) \<Longrightarrow>
   b[i := (b ! i)[j := v]] ! k ! l = (if (i, j) = (k, l) then v else b ! k ! l)"
  by (cases "i = k"; cases "j = l") simp_all

lemma length_put [simp]: "length (put a idx v) = length a"
  unfolding put_def by (induction idx arbitrary: a) (auto simp: case_prod_beta)

lemma row_length_put [simp]: "length (put a idx v ! k) = length (a ! k)"
  unfolding put_def
proof (induction idx arbitrary: a)
  case Nil
  then show ?case by simp
next
  case (Cons p idx)
  obtain i j where p: "p = (i, j)" by (cases p)
  show ?case
    by (simp add: p Cons.IH put_step_row_length)
qed

lemma put_nth:
  "k < length a \<Longrightarrow> l < length (a ! k) \<Longrightarrow>
   put a idx v ! k ! l = (if (k, l) \<in> set idx then v else a ! k ! l)"
  unfolding put_def
proof (induction idx arbitrary: a)
  case Nil
  then show ?case by simp
next
  case (Cons p idx)
  obtain i j where p: "p = (i, j)" by (cases p)
  let ?b = "a[i := (a ! i)[j := v]]"
  have "k < length ?b" "l < length (?b ! k)"
    using Cons.prems by (simp_all add: put_step_row_length)
  from Cons.IH [OF this] show ?case
    using Cons.prems by (auto simp: p put_step_nth)
qed

lemma has_shape_put [simp]: "has_shape s (put a idx v) = has_shape s a"
  by (cases s) (simp add: has_shape_nth)

lemma set_ndindex_square:
  "has_shape (d, d) a \<Longrightarrow> set (ndindex a) = {(i, j). i < d \<and> j < d}"
  by (auto simp: ndindex_def has_shape_nrows square_ncols)

lemma distinct_ndindex [simp]: "distinct (ndindex a)"
  by (simp add: ndindex_def distinct_product)

lemma distinct_where_nonzero [simp]: "distinct (where_nonzero a)"
  by (simp add: where_nonzero_def)

lemma set_where_nonzero:
  "has_shape (d, d) a \<Longrightarrow>
   set (where_nonzero a) = {(i, j). i < d \<and> j < d \<and> a ! i ! j \<noteq> 0}"
  by (auto simp: where_nonzero_def set_ndindex_square)

lemma set_tril_indices [simp]: "set (tril_indices n) = {(i, j). j \<le> i \<and> i < n}"
  by (auto simp: tril_indices_def)

lemma set_triu_indices1 [simp]: "set (triu_indices1 n) = {(i, j). i < j \<and> j < n}"
  by (auto simp: triu_indices1_def)

lemma distinct_triu_indices1 [simp]: "distinct (triu_indices1 n)"
  by (simp add: triu_indices1_def distinct_product)

lemma set_diag_indices [simp]: "set (diag_indices n) = {(i, i) | i. i < n}"
  by (auto simp: diag_indices_def)

lemma in_bounds_square:
  "has_shape (d, d) a \<Longrightarrow> in_bounds a (i, j) \<longleftrightarrow> i < d \<and> j < d"
  by (auto simp: in_bounds_def has_shape_nth)

lemma setitem_tril:
  "has_shape (d, d) a \<Longrightarrow>
   setitem a (tril_indices n) v = (if n \<le> d then Inr (put a (tril_indices n) v) else Inl IndexError)"
proof -
  assume sq: "has_shape (d, d) a"
  have "list_all (in_bounds a) (tril_indices n) \<longleftrightarrow> n \<le> d"
  proof
    assume all: "list_all (in_bounds a) (tril_indices n)"
    show "n \<le> d"
    proof (cases n)
      case 0
      then show ?thesis by simp
    next
      case (Suc m)
      then have "(m, m) \<in> set (tril_indices n)" by simp
      with all have "in_bounds a (m, m)" by (simp add: list_all_iff del: set_tril_indices)
      with sq Suc show ?thesis by (simp add: in_bounds_square)
    qed
  next
    assume "n \<le> d"
    with sq show "list_all (in_bounds a) (tril_indices n)"
      by (auto simp: list_all_iff in_bounds_square)
  qed
  then show ?thesis by (simp add: setitem_def)
qed

lemma setitem_diag:
  "has_shape (d, d) a \<Longrightarrow> n \<le> d \<Longrightarrow>
   setitem a (diag_indices n) v = Inr (put a (diag_indices n) v)"
  by (auto simp: setitem_def list_all_iff in_bounds_square)

lemma T_square_nth:
  "has_shape (d, d) a \<Longrightarrow> i < d \<Longrightarrow> j < d \<Longrightarrow> T a ! i ! j = a ! j ! i"
  by (simp add: T_def has_shape_nrows square_ncols)

lemma has_shape_T_square: "has_shape (d, d) a \<Longrightarrow> has_shape (d, d) (T a)"
proof -
  assume sq: "has_shape (d, d) a"
  then have "T a = map (\<lambda>j. map (\<lambda>i. a ! i ! j) [0..<d]) [0..<d]"
    by (simp add: T_def has_shape_nrows square_ncols)
  then show ?thesis by (simp add: has_shape_nth)
qed

lemma has_shape_add:
  "has_shape (r, c) a \<Longrightarrow> has_shape (r, c) b \<Longrightarrow> has_shape (r, c) (add a b)"
  by (simp add: has_shape_nth add_def)

lemma add_nth:
  "has_shape (r, c) a \<Longrightarrow> has_shape (r, c) b \<Longrightarrow> i < r \<Longrightarrow> j < c \<Longrightarrow>
   add a b ! i ! j = a ! i ! j + b ! i ! j"
  by (simp add: has_shape_nth add_def)

lemma mset_ranked_positions:
  assumes "argsort_spec argsort"
  shows "mset (ranked_positions argsort a) = mset (where_nonzero a)"
proof -
  let ?ix = "where_nonzero a"
  have "mset (argsort (getitem a ?ix)) = mset [0..<length ?ix]"
    using assms by (simp add: argsort_spec_def getitem_def)
  then have "image_mset ((!) ?ix) (mset (argsort (getitem a ?ix)))
      = image_mset ((!) ?ix) (mset [0..<length ?ix])"
    by (rule arg_cong)
  then have "mset (map ((!) ?ix) (rev (argsort (getitem a ?ix)))) = mset (map ((!) ?ix) [0..<length ?ix])"
    by (simp only: mset_map mset_rev)
  then show ?thesis by (simp add: ranked_positions_def map_nth)
qed

lemma set_ranked_positions:
  "argsort_spec argsort \<Longrightarrow> set (ranked_positions argsort a) = set (where_nonzero a)"
  by (rule mset_eq_setD [OF mset_ranked_positions])

lemma distinct_ranked_positions:
  "argsort_spec argsort \<Longrightarrow> distinct (ranked_positions argsort a)"
  using mset_eq_imp_distinct_iff [OF mset_ranked_positions, of argsort a] by simp

lemma set_slice_from_subset: "set (slice_from k xs) \<subseteq> set xs"
  by (auto simp: slice_from_def dest: in_set_dropD)

lemma threshold_adj_array_unfold:
  assumes sq: "has_shape (d, d) adj_array" and nd: "n \<le> d" and spec: "argsort_spec argsort"
  shows "threshold_adj_array argsort adj_array threshold n =
    (let a2 = put (put adj_array (tril_indices n) 0)
                (slice_from (num_to_filter threshold n)
                   (ranked_positions argsort (put adj_array (tril_indices n) 0))) 0
     in (a2, Inr (put (add a2 (T a2)) (diag_indices n) 1)))"
proof -
  let ?a1 = "put adj_array (tril_indices n) 0"
  let ?dropped = "slice_from (num_to_filter threshold n) (ranked_positions argsort ?a1)"
  let ?a2 = "put ?a1 ?dropped 0"
  have s1: "setitem adj_array (tril_indices n) 0 = Inr ?a1"
    using sq nd by (simp add: setitem_tril)
  have sq1: "has_shape (d, d) ?a1" using sq by simp
  have "set ?dropped \<subseteq> set (where_nonzero ?a1)"
    using set_slice_from_subset [of _ "ranked_positions argsort ?a1"]
    by (simp add: set_ranked_positions [OF spec])
  then have "list_all (in_bounds ?a1) ?dropped"
    using sq1 by (auto simp: list_all_iff set_where_nonzero in_bounds_square)
  then have s2: "setitem ?a1 ?dropped 0 = Inr ?a2"
    by (simp add: setitem_def)
  have sq2: "has_shape (d, d) ?a2" using sq by simp
  have sq3: "has_shape (d, d) (add ?a2 (T ?a2))"
    by (rule has_shape_add [OF sq2 has_shape_T_square [OF sq2]])
  have s3: "setitem (add ?a2 (T ?a2)) (diag_indices n) 1
      = Inr (put (add ?a2 (T ?a2)) (diag_indices n) 1)"
    by (rule setitem_diag [OF sq3 nd])
  show ?thesis
    unfolding threshold_adj_array_def Let_def ranked_positions_def [symmetric]
    by (simp add: s1 s2 s3)
qed

lemma from_numpy_array_square:
  "has_shape (d, d) A \<Longrightarrow>
   \<exists>G. from_numpy_array A = Inr G \<and> nodes G = [0..<d] \<and> edges G = where_nonzero A"
  by (simp add: from_numpy_array_def has_shape_nrows edges_def o_def case_prod_beta)

lemma symmetrised_nth:
  assumes sq: "has_shape (d, d) a" and nd: "n \<le> d" and i: "i < d" and j: "j < d"
  shows "put (add a (T a)) (diag_indices n) 1 ! i ! j =
     (if i = j \<and> i < n then 1 else a ! i ! j + a ! j ! i)"
proof -
  have sq3: "has_shape (d, d) (add a (T a))"
    by (rule has_shape_add [OF sq has_shape_T_square [OF sq]])
  then have "i < length (add a (T a))" "j < length (add a (T a) ! i)"
    using i j by (simp_all add: has_shape_nth)
  then have "put (add a (T a)) (diag_indices n) 1 ! i ! j =
      (if (i, j) \<in> set (diag_indices n) then 1 else add a (T a) ! i ! j)"
    by (rule put_nth)
  also have "add a (T a) ! i ! j = a ! i ! j + a ! j ! i"
    using add_nth [OF sq has_shape_T_square [OF sq] i j] T_square_nth [OF sq i j] by simp
  finally show ?thesis by auto
qed

lemma has_shape_symmetrised:
  "has_shape (d, d) a \<Longrightarrow> has_shape (d, d) (put (add a (T a)) (diag_indices n) 1)"
  by (simp add: has_shape_add has_shape_T_square)


lemma two_card_upper: "2 * card {(i, j). i < j \<and> j < (n::nat)} = n * (n - 1)"
proof (induction n)
  case 0
  then show ?case by simp
next
  case (Suc n)
  have split: "{(i, j). i < j \<and> j < Suc n} = {(i, j). i < j \<and> j < n} \<union> (\<lambda>i. (i, n)) ` {..<n}"
    by (auto simp: less_Suc_eq)
  have fin: "finite {(i, j). i < j \<and> j < n}"
    by (rule finite_subset [of _ "{..<n} \<times> {..<n}"]) auto
  have disj: "{(i, j). i < j \<and> j < n} \<inter> (\<lambda>i. (i, n)) ` {..<n} = {}" by auto
  have "card ((\<lambda>i. (i, n)) ` {..<n}) = n"
    by (simp add: card_image inj_on_def)
  then have "card {(i, j). i < j \<and> j < Suc n} = card {(i, j). i < j \<and> j < n} + n"
    unfolding split using fin disj by (simp add: card_Un_disjoint)
  then have "2 * card {(i, j). i < j \<and> j < Suc n} = n * (n - 1) + 2 * n"
    using Suc.IH by simp
  also have "\<dots> = Suc n * (Suc n - 1)"
    by (cases n) simp_all
  finally show ?case .
qed

lemma length_triu_indices1: "2 * length (triu_indices1 n) = n * (n - 1)"
proof -
  have "card (set (triu_indices1 n)) = length (triu_indices1 n)"
    by (rule distinct_card) simp
  then have "length (triu_indices1 n) = card {(i, j). i < j \<and> j < n}"
    by simp
  then show ?thesis by (simp only: two_card_upper)
qed

lemma count_nonzero_upper_card:
  "count_nonzero_upper a n = card {(i, j). i < j \<and> j < n \<and> a ! i ! j \<noteq> 0}"
proof -
  have "card (set (filter (\<lambda>(i, j). a ! i ! j \<noteq> 0) (triu_indices1 n)))
      = length (filter (\<lambda>(i, j). a ! i ! j \<noteq> 0) (triu_indices1 n))"
    by (rule distinct_card) simp
  then have "count_nonzero_upper a n
      = card (set (filter (\<lambda>(i, j). a ! i ! j \<noteq> 0) (triu_indices1 n)))"
    unfolding count_nonzero_upper_def by (rule sym)
  also have "set (filter (\<lambda>(i, j). a ! i ! j \<noteq> 0) (triu_indices1 n))
      = {(i, j). i < j \<and> j < n \<and> a ! i ! j \<noteq> 0}"
    by auto
  finally show ?thesis .
qed

lemma count_nonzero_upper_le: "2 * count_nonzero_upper a n \<le> n * (n - 1)"
proof -
  have "count_nonzero_upper a n \<le> length (triu_indices1 n)"
    by (simp add: count_nonzero_upper_def)
  then show ?thesis using length_triu_indices1 [of n] by simp
qed

lemma rne_nearest: "\<bar>of_int (rne x) - x\<bar> \<le> \<bar>of_int i - x\<bar>"
proof -
  define f where "f = \<lfloor>x\<rfloor>"
  define d where "d = x - of_int f"
  have d: "0 \<le> d" "d < 1" unfolding d_def f_def by linarith+
  have x: "x = of_int f + d" by (simp add: d_def)
  have far: "min d (1 - d) \<le> \<bar>of_int i - x\<bar>"
  proof (cases "i \<le> f")
    case True
    then have "(of_int i :: real) \<le> of_int f" by simp
    then show ?thesis using d by (simp add: x)
  next
    case False
    then have "f + 1 \<le> i" by simp
    then have "(of_int f :: real) + 1 \<le> of_int i" by linarith
    then show ?thesis using d by (simp add: x)
  qed
  have "\<bar>of_int (rne x) - x\<bar> \<le> min d (1 - d)"
    unfolding rne_def Let_def f_def [symmetric] d_def [symmetric]
    using d by (auto simp: x)
  with far show ?thesis by linarith
qed

lemma abs_scale: "0 < u \<Longrightarrow> \<bar>a - S / u\<bar> * u = \<bar>a * u - S\<bar>" for a S u :: real
proof -
  assume u: "0 < u"
  then have "(a - S / u) * u = a * u - S" by (simp add: left_diff_distrib)
  then have "\<bar>a * u - S\<bar> = \<bar>a - S / u\<bar> * \<bar>u\<bar>" by (metis abs_mult)
  then show ?thesis using u by simp
qed

lemma abs_unscale: "\<bar>a / 2 ^ k - S / 2 ^ k\<bar> = \<bar>a - S\<bar> / 2 ^ k" for a S :: real
  by (simp add: diff_divide_distrib [symmetric] del: )

lemma rne_nonneg: "0 \<le> x \<Longrightarrow> 0 \<le> rne x"
  by (auto simp: rne_def Let_def)

lemma round_double_nonneg: "0 \<le> x \<Longrightarrow> 0 \<le> round_double x"
  by (auto simp: round_double_def Let_def sgn_real_def intro!: mult_nonneg_nonneg divide_nonneg_nonneg rne_nonneg)

lemma round_double_0 [simp]: "round_double 0 = 0"
  by (simp add: round_double_def)

lemma round_double_nearest:
  assumes x: "0 \<le> x" and s: "\<bar>s\<bar> < 2 ^ 53"
  shows "\<bar>round_double x - x\<bar> \<le> \<bar>of_int s * 2 ^ j / 2 ^ 128 - x\<bar>"
proof (cases "x = 0")
  case True
  then show ?thesis by simp
next
  case False
  with x have xpos: "0 < x" by simp
  define S where "S = x * 2 ^ 128"
  define n where "n = nat \<lfloor>S\<rfloor>"
  define b where "b = floorlog 2 n"
  define j0 where "j0 = b - 53"
  define u :: real where "u = 2 ^ j0"
  define R where "R = of_int (rne (S / u)) * u"
  have upos: "0 < u" by (simp add: u_def)
  have S0: "0 \<le> S" using x by (simp add: S_def)
  have rd: "round_double x = R / 2 ^ 128"
    using xpos by (simp add: round_double_def Let_def S_def n_def b_def j0_def u_def R_def)
  have mult: "\<bar>R - S\<bar> \<le> \<bar>of_int i * u - S\<bar>" for i
  proof -
    have "\<bar>of_int (rne (S / u)) - S / u\<bar> \<le> \<bar>of_int i - S / u\<bar>" by (rule rne_nearest)
    then have "\<bar>of_int (rne (S / u)) - S / u\<bar> * u \<le> \<bar>of_int i - S / u\<bar> * u"
      using upos by (simp add: mult_right_mono)
    moreover have "\<bar>of_int (rne (S / u)) - S / u\<bar> * u = \<bar>R - S\<bar>"
      unfolding R_def by (rule abs_scale [OF upos])
    moreover have "\<bar>of_int i - S / u\<bar> * u = \<bar>of_int i * u - S\<bar>"
      by (rule abs_scale [OF upos])
    ultimately show ?thesis by simp
  qed
  have scaled: "\<bar>R - S\<bar> \<le> \<bar>of_int s * 2 ^ j - S\<bar>"
  proof (cases "j0 \<le> j")
    case True
    then have "(2::real) ^ j = 2 ^ (j - j0) * u"
      by (simp add: u_def power_add [symmetric])
    then have "of_int s * 2 ^ j = of_int (s * 2 ^ (j - j0)) * u"
      by (simp only: of_int_mult of_int_power of_int_numeral mult.assoc)
    then show ?thesis using mult [of "s * 2 ^ (j - j0)"] by (simp only:)
  next
    case False
    then have jj: "j < j0" by simp
    then have b54: "54 \<le> b" by (simp add: j0_def)
    then have npos: "0 < n" using floorlog_eq_zero_iff [of 2 n] by (auto simp: b_def)
    have "2 ^ (b - 1) \<le> n" using floorlog_bounds [of n 2] npos by (simp add: b_def)
    then have "(2::real) ^ (b - 1) \<le> real n"
      by (metis of_nat_le_iff of_nat_numeral of_nat_power)
    also have "real n \<le> S" using S0 by (simp add: n_def)
    finally have lo: "(2::real) ^ (b - 1) \<le> S" .
    have bb: "b - 1 = 52 + (b - 53)" using b54 by simp
    have eq: "(2::real) ^ (b - 1) = of_int (2 ^ 52) * u"
      unfolding u_def j0_def by (subst bb) (simp only: power_add of_int_power of_int_numeral)
    have "\<bar>of_int s :: real\<bar> < 2 ^ 53"
      using s by (metis of_int_abs of_int_less_iff of_int_numeral of_int_power)
    then have "\<bar>of_int s * 2 ^ j :: real\<bar> < 2 ^ 53 * 2 ^ j"
      by (simp add: abs_mult)
    also have "\<dots> \<le> 2 ^ (b - 1)"
    proof -
      have "53 + j \<le> b - 1" using jj by (simp add: j0_def)
      then have "(2::real) ^ (53 + j) \<le> 2 ^ (b - 1)" by (rule power_increasing) simp
      then show ?thesis by (simp add: power_add)
    qed
    finally have up: "of_int s * 2 ^ j < (2::real) ^ (b - 1)" by linarith
    have "\<bar>R - S\<bar> \<le> \<bar>of_int (2 ^ 52) * u - S\<bar>" by (rule mult)
    also have "\<dots> = S - 2 ^ (b - 1)" unfolding eq [symmetric] using lo by linarith
    also have "\<dots> \<le> \<bar>of_int s * 2 ^ j - S\<bar>" using up lo by linarith
    finally show ?thesis .
  qed
  have Sx: "S / 2 ^ 128 = x" by (simp add: S_def)
  have "\<bar>round_double x - x\<bar> = \<bar>R - S\<bar> / 2 ^ 128"
    using abs_unscale [of R 128 S] by (simp only: rd Sx)
  also have "\<dots> \<le> \<bar>of_int s * 2 ^ j - S\<bar> / 2 ^ 128"
    using scaled by (simp add: divide_right_mono)
  also have "\<dots> = \<bar>of_int s * 2 ^ j / 2 ^ 128 - x\<bar>"
    using abs_unscale [of "of_int s * 2 ^ j" 128 S] by (simp only: Sx)
  finally show ?thesis .
qed

lemma floorlog2_eqI: "2 ^ (b - 1) \<le> n \<Longrightarrow> n < 2 ^ b \<Longrightarrow> 0 < b \<Longrightarrow> floorlog 2 n = b"
  by (intro antisym floorlog_leI floorlog_geI) simp_all

lemma round_double_fix:
  assumes "0 \<le> x" and "x = of_int s * 2 ^ j / 2 ^ 128" and "\<bar>s\<bar> < 2 ^ 53"
  shows "round_double x = x"
proof -
  have "\<bar>round_double x - x\<bar> \<le> \<bar>of_int s * 2 ^ j / 2 ^ 128 - x\<bar>"
    by (rule round_double_nearest [OF assms(1) assms(3)])
  also have "\<dots> = 0" by (simp only: assms(2) [symmetric])
  finally show ?thesis by simp
qed

lemma round_double_eval:
  assumes "0 < x" and "2 ^ (b - 1) \<le> nat \<lfloor>x * 2 ^ 128\<rfloor>" and "nat \<lfloor>x * 2 ^ 128\<rfloor> < 2 ^ b"
    and "0 < b"
  shows "round_double x = of_int (rne (x * 2 ^ 128 / 2 ^ (b - 53))) * 2 ^ (b - 53) / 2 ^ 128"
proof -
  have "floorlog 2 (nat \<lfloor>x * 2 ^ 128\<rfloor>) = b"
    by (rule floorlog2_eqI [OF assms(2-4)])
  then show ?thesis using assms(1) by (simp add: round_double_def Let_def)
qed

lemma round_double_of_nat: "n < 2 ^ 53 \<Longrightarrow> round_double (real n) = real n"
  by (rule round_double_fix [of _ "int n" 128]) simp_all

lemma round_double_half_nat: "n < 2 ^ 53 \<Longrightarrow> round_double (1 / 2 * real n) = 1 / 2 * real n"
  by (rule round_double_fix [of _ "int n" 127]) simp_all

lemma round_double_half: "round_double (1 / 2) = 1 / 2"
  by (rule round_double_fix [of _ 1 127]) simp_all

lemma round_double_one: "round_double 1 = 1"
  by (rule round_double_fix [of _ 1 128]) simp_all

lemma round_double_twentieth: "round_double (1 / 20) = 3602879701896397 / 2 ^ 56"
  by (subst round_double_eval [where b = 124]) (simp_all add: rne_def)

lemma round_double_fifth: "round_double (1 / 5) = 3602879701896397 / 2 ^ 54"
  by (subst round_double_eval [where b = 126]) (simp_all add: rne_def)

lemma round_double_41: "round_double (41 / 100) = 7385903388887613 / 2 ^ 54"
  by (subst round_double_eval [where b = 127]) (simp_all add: rne_def)

lemma round_double_123: "\<lfloor>round_double (7385903388887613 / 2 ^ 54 * 300)\<rfloor> = 122"
  by (subst round_double_eval [where b = 135]) (simp_all add: rne_def)

lemma pairs_Suc: "Suc n * (Suc n - 1) div 2 = n * (n - 1) div 2 + n"
proof -
  have "Suc n * (Suc n - 1) = n * (n - 1) + n * 2"
    by (cases n) (simp_all add: algebra_simps)
  then show ?thesis by simp
qed

lemma pairs_mod5: "(n * (n - 1) div 2) mod 5 \<in> {0, 1, 3}" for n :: nat
proof (induction n rule: less_induct)
  case (less n)
  show ?case
  proof (cases "n < 5")
    case True
    then consider "n = 0" | "n = 1" | "n = 2" | "n = 3" | "n = 4" by linarith
    then show ?thesis by cases simp_all
  next
    case False
    define k where "k = n - 5"
    have n: "n = Suc (Suc (Suc (Suc (Suc k))))" using False by (simp add: k_def)
    have "n * (n - 1) div 2 = k * (k - 1) div 2 + 5 * (k + 2)"
      unfolding n pairs_Suc by simp
    then have "(n * (n - 1) div 2) mod 5 = (k * (k - 1) div 2) mod 5"
      by (simp only: mod_mult_self2)
    moreover have "k < n" by (simp add: n)
    ultimately show ?thesis using less.IH [of k] by simp
  qed
qed

lemma real_lt_2_53: "m < 2 ^ 53 \<Longrightarrow> real m < 9007199254740992"
proof -
  assume "m < 2 ^ 53"
  then have "m < 9007199254740992" by simp
  then show ?thesis by linarith
qed

lemma floor_product_twentieth:
  assumes m: "m < 2 ^ 53" and r5: "m mod 5 \<in> {0, 1, 3}"
  shows "\<lfloor>round_double (3602879701896397 / 2 ^ 56 * real m)\<rfloor> = int (m div 20)"
proof -
  define k where "k = m div 20"
  define r where "r = m mod 20"
  define x :: real where "x = 3602879701896397 / 2 ^ 56 * real m"
  have mk: "m = 20 * k + r" by (simp add: k_def r_def)
  have "r mod 5 = m mod 5" unfolding r_def by (simp add: mod_mod_cancel)
  moreover have "r < 20" by (simp add: r_def)
  ultimately have r18: "r \<le> 18" using r5 by (cases "r = 19") auto
  have M: "real m = 20 * real k + real r" using arg_cong [OF mk, of real] by simp
  have R: "real r \<le> 18" using r18 by linarith
  have Mb: "real m < 9007199254740992" by (rule real_lt_2_53 [OF m])
  have k0: "0 \<le> real k" and r0: "0 \<le> real r" by simp_all
  have xe: "x = 3602879701896397 / 72057594037927936 * real m" by (simp add: x_def)
  have x0: "0 \<le> x" unfolding xe by simp
  have "m < 9007199254740992" using m by simp
  then have kk: "k < 9007199254740992" "16 * k + 15 < 9007199254740992" using mk by linarith+
  have kb: "\<bar>int k\<bar> < 2 ^ 53" using kk(1) by simp
  have kb': "\<bar>int (16 * k + 15)\<bar> < 2 ^ 53" using kk(2) by simp
  have lo: "real k \<le> x" unfolding xe using M r0 k0 by linarith
  have hi: "x \<le> real k + 15 / 16" unfolding xe using M R Mb by linarith
  have "\<bar>round_double x - x\<bar> \<le> \<bar>of_int (int k) * 2 ^ 128 / 2 ^ 128 - x\<bar>"
    by (rule round_double_nearest [OF x0 kb])
  moreover have "(of_int (int k) :: real) * 2 ^ 128 / 2 ^ 128 = real k" by simp
  ultimately have ge: "real k \<le> round_double x" using lo by linarith
  have "\<bar>round_double x - x\<bar> \<le> \<bar>of_int (int (16 * k + 15)) * 2 ^ 124 / 2 ^ 128 - x\<bar>"
    by (rule round_double_nearest [OF x0 kb'])
  moreover have "(of_int (int (16 * k + 15)) :: real) * 2 ^ 124 / 2 ^ 128 = real k + 15 / 16"
    by simp
  ultimately have "round_double x \<le> real k + 15 / 16" using hi by linarith
  then have "round_double x < real k + 1" by linarith
  with ge have "\<lfloor>round_double x\<rfloor> = int k" by linarith
  then show ?thesis by (simp only: x_def k_def)
qed

lemma floor_product_fifth:
  assumes m: "m < 2 ^ 53" and r5: "m mod 5 \<in> {0, 1, 3}"
  shows "\<lfloor>round_double (3602879701896397 / 2 ^ 54 * real m)\<rfloor> = int (m div 5)"
proof -
  define k where "k = m div 5"
  define r where "r = m mod 5"
  define x :: real where "x = 3602879701896397 / 2 ^ 54 * real m"
  have mk: "m = 5 * k + r" by (simp add: k_def r_def)
  have r3: "r \<le> 3" using r5 by (auto simp: r_def)
  have M: "real m = 5 * real k + real r" using arg_cong [OF mk, of real] by simp
  have R: "real r \<le> 3" using r3 by linarith
  have Mb: "real m < 9007199254740992" by (rule real_lt_2_53 [OF m])
  have k0: "0 \<le> real k" and r0: "0 \<le> real r" by simp_all
  have xe: "x = 3602879701896397 / 18014398509481984 * real m" by (simp add: x_def)
  have x0: "0 \<le> x" unfolding xe by simp
  have "m < 9007199254740992" using m by simp
  then have kk: "k < 9007199254740992" "4 * k + 3 < 9007199254740992" using mk by linarith+
  have kb: "\<bar>int k\<bar> < 2 ^ 53" using kk(1) by simp
  have kb': "\<bar>int (4 * k + 3)\<bar> < 2 ^ 53" using kk(2) by simp
  have lo: "real k \<le> x" unfolding xe using M r0 k0 by linarith
  have hi: "x \<le> real k + 3 / 4" unfolding xe using M R Mb by linarith
  have "\<bar>round_double x - x\<bar> \<le> \<bar>of_int (int k) * 2 ^ 128 / 2 ^ 128 - x\<bar>"
    by (rule round_double_nearest [OF x0 kb])
  moreover have "(of_int (int k) :: real) * 2 ^ 128 / 2 ^ 128 = real k" by simp
  ultimately have ge: "real k \<le> round_double x" using lo by linarith
  have "\<bar>round_double x - x\<bar> \<le> \<bar>of_int (int (4 * k + 3)) * 2 ^ 126 / 2 ^ 128 - x\<bar>"
    by (rule round_double_nearest [OF x0 kb'])
  moreover have "(of_int (int (4 * k + 3)) :: real) * 2 ^ 126 / 2 ^ 128 = real k + 3 / 4"
    by simp
  ultimately have "round_double x \<le> real k + 3 / 4" using hi by linarith
  then have "round_double x < real k + 1" by linarith
  with ge have "\<lfloor>round_double x\<rfloor> = int k" by linarith
  then show ?thesis by (simp only: x_def k_def)
qed

lemma even_pairs: "even (n * (n - 1))" for n :: nat
  by (cases n) simp_all

lemma real_pairs: "real (n * (n - 1)) / 2 = real (n * (n - 1) div 2)"
  using real_of_nat_div [OF even_pairs [of n]] by simp

lemma py_int_nonneg: "0 \<le> x \<Longrightarrow> py_int x = \<lfloor>x\<rfloor>"
  by (simp add: py_int_def)

lemma num_to_filter_small:
  "n * (n - 1) div 2 < 2 ^ 53 \<Longrightarrow>
   num_to_filter threshold n
     = py_int (round_double (round_double (real_of_int threshold / 100) * real (n * (n - 1) div 2)))"
  unfolding num_to_filter_def Let_def by (simp only: if_True)

lemma num_to_filter_large:
  "\<not> n * (n - 1) div 2 < 2 ^ 53 \<Longrightarrow>
   num_to_filter threshold n = py_int (real_of_int threshold / 100 * real (n * (n - 1) div 2))"
  unfolding num_to_filter_def Let_def by (simp only: if_False)

lemma num_to_filter_nonneg: "0 \<le> threshold \<Longrightarrow> 0 \<le> num_to_filter threshold n"
proof (cases "n * (n - 1) div 2 < 2 ^ 53")
  case True
  assume t0: "0 \<le> threshold"
  have nn: "0 \<le> round_double (round_double (real_of_int threshold / 100)
      * real (n * (n - 1) div 2))"
    by (rule round_double_nonneg, rule mult_nonneg_nonneg, rule round_double_nonneg)
      (use t0 in simp_all)
  show ?thesis
    unfolding num_to_filter_small [OF True] py_int_nonneg [OF nn] using nn by (rule zero_le_floor [THEN iffD2])
next
  case False
  assume "0 \<le> threshold"
  then have "0 \<le> real_of_int threshold / 100 * real (n * (n - 1) div 2)" by simp
  then show ?thesis
    unfolding num_to_filter_large [OF False] by (simp add: py_int_nonneg)
qed

lemma floor_scaled_nat: "0 < d \<Longrightarrow> \<lfloor>real m / real d\<rfloor> = int (m div d)"
  by (simp add: floor_divide_of_nat_eq)

lemma num_to_filter_std:
  assumes "threshold \<in> {0, 5, 20, 50, 100}"
  shows "num_to_filter threshold n = \<lfloor>real_of_int threshold / 100 * (real (n * (n - 1)) / 2)\<rfloor>"
proof -
  define p where "p = n * (n - 1) div 2"
  have rp: "real (n * (n - 1)) / 2 = real p" unfolding p_def by (rule real_pairs)
  have r5: "p mod 5 \<in> {0, 1, 3}" unfolding p_def by (rule pairs_mod5)
  have t0: "0 \<le> threshold" using assms by auto
  have x0: "0 \<le> real_of_int threshold / 100 * real p" using t0 by simp
  show ?thesis
  proof (cases "p < 2 ^ 53")
    case False
    then have "num_to_filter threshold n = py_int (real_of_int threshold / 100 * real p)"
      unfolding p_def by (rule num_to_filter_large)
    then show ?thesis unfolding rp using x0 by (simp only: py_int_nonneg)
  next
    case True
    then have nf: "num_to_filter threshold n
        = py_int (round_double (round_double (real_of_int threshold / 100) * real p))"
      unfolding p_def by (rule num_to_filter_small)
    have fl: "num_to_filter threshold n
        = \<lfloor>round_double (round_double (real_of_int threshold / 100) * real p)\<rfloor>"
      unfolding nf
      by (rule py_int_nonneg, rule round_double_nonneg, rule mult_nonneg_nonneg,
          rule round_double_nonneg) (use t0 in simp_all)
    from assms consider "threshold = 0" | "threshold = 5" | "threshold = 20"
      | "threshold = 50" | "threshold = 100" by auto
    then show ?thesis
    proof cases
      case 1
      show ?thesis unfolding fl rp by (simp add: 1)
    next
      case 2
      have c: "real_of_int threshold / 100 = 1 / 20" by (simp add: 2)
      have "\<lfloor>round_double (3602879701896397 / 2 ^ 56 * real p)\<rfloor> = int (p div 20)"
        by (rule floor_product_twentieth [OF True r5])
      moreover have "\<lfloor>1 / 20 * real p\<rfloor> = int (p div 20)"
        using floor_scaled_nat [of 20 p] by simp
      ultimately show ?thesis
        unfolding fl rp c round_double_twentieth by (simp only:)
    next
      case 3
      have c: "real_of_int threshold / 100 = 1 / 5" by (simp add: 3)
      have "\<lfloor>round_double (3602879701896397 / 2 ^ 54 * real p)\<rfloor> = int (p div 5)"
        by (rule floor_product_fifth [OF True r5])
      moreover have "\<lfloor>1 / 5 * real p\<rfloor> = int (p div 5)"
        using floor_scaled_nat [of 5 p] by simp
      ultimately show ?thesis
        unfolding fl rp c round_double_fifth by (simp only:)
    next
      case 4
      have c: "real_of_int threshold / 100 = 1 / 2" by (simp add: 4)
      have "round_double (1 / 2 * real p) = 1 / 2 * real p"
        by (rule round_double_half_nat [OF True])
      then show ?thesis
        unfolding fl rp c round_double_half by (simp only:)
    next
      case 5
      have c: "real_of_int threshold / 100 = 1" by (simp add: 5)
      have "round_double (real p) = real p"
        by (rule round_double_of_nat [OF True])
      then show ?thesis
        unfolding fl rp c round_double_one by (simp only: mult_1)
    qed
  qed
qed

text \<open>
  A threshold at which the double product falls below the exact one: 41 per cent of the
  300 pairs of 25 nodes is 123, the doubles give 122.99999999999999 and line 42 keeps
  122.
\<close>

lemma num_to_filter_41_25: "num_to_filter 41 25 = 122"
proof -
  have p: "(25::nat) * (25 - 1) div 2 = 300" by simp
  have small: "(25::nat) * (25 - 1) div 2 < 2 ^ 53" by simp
  have c: "real_of_int 41 / 100 = 41 / 100" by simp
  have fl: "\<lfloor>round_double (7385903388887613 / 2 ^ 54 * 300)\<rfloor> = 122" by (rule round_double_123)
  have nn: "0 \<le> round_double (7385903388887613 / 2 ^ 54 * 300)"
    by (rule round_double_nonneg) simp
  have "num_to_filter 41 25 = py_int (round_double (round_double (41 / 100) * real (300::nat)))"
    unfolding num_to_filter_small [OF small] p c ..
  also have "\<dots> = py_int (round_double (7385903388887613 / 2 ^ 54 * 300))"
    unfolding round_double_41 by simp
  also have "\<dots> = 122" unfolding py_int_nonneg [OF nn] by (rule fl)
  finally show ?thesis .
qed

lemma num_to_filter_0 [simp]: "num_to_filter 0 n = 0"
  using num_to_filter_std [of 0 n] by simp

lemma num_to_filter_100: "2 * num_to_filter 100 n = int (n * (n - 1))"
proof -
  have "num_to_filter 100 n = \<lfloor>real (n * (n - 1) div 2)\<rfloor>"
    using num_to_filter_std [of 100 n] by (simp only: real_pairs) simp
  then have "num_to_filter 100 n = int (n * (n - 1) div 2)" by simp
  moreover have "2 * (n * (n - 1) div 2) = n * (n - 1)"
    using even_pairs [of n] by simp
  ultimately show ?thesis by (metis of_nat_mult of_nat_numeral)
qed

lemma builder_kept:
  assumes sq: "has_shape (n, n) adj_array" and spec: "argsort_spec argsort"
    and t0: "0 \<le> threshold"
  shows "\<exists>caller_array r K.
     threshold_adj_array argsort adj_array threshold n = (caller_array, Inr r) \<and>
     has_shape (n, n) r \<and>
     K \<subseteq> {(i, j). i < j \<and> j < n \<and> adj_array ! i ! j \<noteq> 0} \<and>
     card K = min (nat (num_to_filter threshold n)) (count_nonzero_upper adj_array n) \<and>
     (\<forall>i<n. \<forall>j<n. r ! i ! j \<noteq> 0 \<longleftrightarrow> i = j \<or> (i, j) \<in> K \<or> (j, i) \<in> K)"
proof -
  define NZ where "NZ = {(i, j). i < j \<and> j < n \<and> adj_array ! i ! j \<noteq> 0}"
  define k where "k = nat (num_to_filter threshold n)"
  define a1 where "a1 = put adj_array (tril_indices n) 0"
  define ranked where "ranked = ranked_positions argsort a1"
  define a2 where "a2 = put a1 (drop k ranked) 0"
  define r where "r = put (add a2 (T a2)) (diag_indices n) 1"
  define K where "K = set (take k ranked)"
  have sl: "slice_from (num_to_filter threshold n) ranked = drop k ranked"
    using num_to_filter_nonneg [OF t0, of n] by (simp add: slice_from_def k_def)
  have res: "threshold_adj_array argsort adj_array threshold n = (a2, Inr r)"
    using threshold_adj_array_unfold [OF sq le_refl spec, of threshold]
    by (simp add: Let_def a1_def [symmetric] ranked_def [symmetric] sl a2_def [symmetric]
        r_def [symmetric])
  have sq1: "has_shape (n, n) a1" using sq by (simp add: a1_def)
  have sq2: "has_shape (n, n) a2" using sq1 by (simp add: a2_def)
  have sqr: "has_shape (n, n) r" unfolding r_def by (rule has_shape_symmetrised [OF sq2])
  have e1: "a1 ! i ! j = (if j \<le> i then 0 else adj_array ! i ! j)" if "i < n" "j < n" for i j
    using that sq by (simp add: a1_def put_nth has_shape_nth)
  have nz1: "set (where_nonzero a1) = NZ"
    unfolding set_where_nonzero [OF sq1] NZ_def by (auto simp: e1 split: if_splits)
  have set_ranked: "set ranked = NZ"
    unfolding ranked_def by (simp add: set_ranked_positions [OF spec] nz1)
  have dist: "distinct ranked"
    unfolding ranked_def by (rule distinct_ranked_positions [OF spec])
  have "card (set ranked) = length ranked" by (rule distinct_card [OF dist])
  then have len: "length ranked = count_nonzero_upper adj_array n"
    by (simp add: set_ranked count_nonzero_upper_card NZ_def)
  have "card (set (take k ranked)) = length (take k ranked)"
    by (rule distinct_card) (simp add: dist)
  then have cardK: "card K = min k (count_nonzero_upper adj_array n)"
    by (simp add: K_def len min.commute)
  have KNZ: "K \<subseteq> NZ"
    unfolding K_def set_ranked [symmetric] by (rule set_take_subset)
  have split: "NZ = K \<union> set (drop k ranked)"
    unfolding K_def set_ranked [symmetric] by (simp add: set_append [symmetric] del: set_append)
  have disj: "K \<inter> set (drop k ranked) = {}"
    unfolding K_def using dist distinct_append [of "take k ranked" "drop k ranked"] by simp
  have e2: "a2 ! i ! j = (if (i, j) \<in> set (drop k ranked) then 0 else a1 ! i ! j)"
    if "i < n" "j < n" for i j
    using that sq1 by (simp add: a2_def put_nth has_shape_nth)
  have in_NZ: "(i, j) \<in> NZ \<longleftrightarrow> a1 ! i ! j \<noteq> 0" if "i < n" "j < n" for i j
    using that by (auto simp: NZ_def e1)
  have nz2: "a2 ! i ! j \<noteq> 0 \<longleftrightarrow> (i, j) \<in> K" if "i < n" "j < n" for i j
    using in_NZ [OF that] split disj by (auto simp: e2 [OF that])
  have upper: "i < j" if "(i, j) \<in> K" for i j
    using that KNZ by (auto simp: NZ_def)
  have er: "r ! i ! j = (if i = j then 1 else a2 ! i ! j + a2 ! j ! i)" if "i < n" "j < n" for i j
    unfolding r_def using symmetrised_nth [OF sq2 le_refl that] that by simp
  have nzr: "r ! i ! j \<noteq> 0 \<longleftrightarrow> i = j \<or> (i, j) \<in> K \<or> (j, i) \<in> K" if "i < n" "j < n" for i j
  proof (cases "i = j")
    case True
    then show ?thesis using that by (simp add: er)
  next
    case False
    show ?thesis
    proof (cases "i < j")
      case True
      then have "(j, i) \<notin> K" using upper [of j i] by auto
      then have "a2 ! j ! i = 0" using nz2 [OF that(2) that(1)] by simp
      then show ?thesis using False \<open>(j, i) \<notin> K\<close> nz2 [OF that] by (simp add: er [OF that])
    next
      case False
      then have "(i, j) \<notin> K" using upper [of i j] by auto
      then have "a2 ! i ! j = 0" using nz2 [OF that] by simp
      then show ?thesis
        using \<open>i \<noteq> j\<close> \<open>(i, j) \<notin> K\<close> nz2 [OF that(2) that(1)] by (simp add: er [OF that])
    qed
  qed
  from res sqr KNZ cardK nzr show ?thesis
    unfolding NZ_def k_def by blast
qed

lemma finite_upper_nonzero:
  "finite {(i, j). i < j \<and> j < (n::nat) \<and> P i j}"
  by (rule finite_subset [of _ "{..<n} \<times> {..<n}"]) auto

lemma swap_image_iff: "(i, j) \<in> prod.swap ` K \<longleftrightarrow> (j, i) \<in> K"
  by force

lemma builder_graph:
  assumes sq: "has_shape (n, n) adj_array" and spec: "argsort_spec argsort"
    and t0: "0 \<le> threshold"
  shows "\<exists>caller_array G K.
     create_thresholded_graph argsort adj_array threshold n = (caller_array, Inr G) \<and>
     K \<subseteq> {(i, j). i < j \<and> j < n \<and> adj_array ! i ! j \<noteq> 0} \<and>
     card K = min (nat (num_to_filter threshold n)) (count_nonzero_upper adj_array n) \<and>
     distinct (edges G) \<and>
     set (edges G) = {(i, i) | i. i < n} \<union> K \<union> prod.swap ` K"
proof -
  from builder_kept [OF sq spec t0] obtain caller_array r K where
    res: "threshold_adj_array argsort adj_array threshold n = (caller_array, Inr r)" and
    sqr: "has_shape (n, n) r" and
    KNZ: "K \<subseteq> {(i, j). i < j \<and> j < n \<and> adj_array ! i ! j \<noteq> 0}" and
    cardK: "card K = min (nat (num_to_filter threshold n)) (count_nonzero_upper adj_array n)" and
    nzr: "\<forall>i<n. \<forall>j<n. r ! i ! j \<noteq> 0 \<longleftrightarrow> i = j \<or> (i, j) \<in> K \<or> (j, i) \<in> K"
    by blast
  from from_numpy_array_square [OF sqr] obtain G
    where G: "from_numpy_array r = Inr G" "edges G = where_nonzero r" by blast
  have cr: "create_thresholded_graph argsort adj_array threshold n = (caller_array, Inr G)"
    by (simp add: create_thresholded_graph_def res G)
  have bound: "i < n \<and> j < n" if "(i, j) \<in> K" for i j
    using that KNZ by auto
  have "set (edges G) = {(i, j). i < n \<and> j < n \<and> r ! i ! j \<noteq> 0}"
    by (simp add: G set_where_nonzero [OF sqr])
  also have "\<dots> = {(i, i) | i. i < n} \<union> K \<union> prod.swap ` K" (is "?L = ?R")
  proof -
    have "p \<in> ?L \<longleftrightarrow> p \<in> ?R" for p
    proof -
      obtain i j where p: "p = (i, j)" by (cases p)
      show ?thesis
      proof (cases "i < n \<and> j < n")
        case True
        then have "r ! i ! j \<noteq> 0 \<longleftrightarrow> i = j \<or> (i, j) \<in> K \<or> (j, i) \<in> K"
          using nzr by blast
        then show ?thesis using True by (auto simp: p swap_image_iff)
      next
        case False
        then have "(i, j) \<notin> K" "(j, i) \<notin> K" using bound by blast+
        then show ?thesis using False by (auto simp: p swap_image_iff)
      qed
    qed
    then show ?thesis by blast
  qed
  finally have "set (edges G) = {(i, i) | i. i < n} \<union> K \<union> prod.swap ` K" .
  moreover have "distinct (edges G)" by (simp add: G)
  ultimately show ?thesis using cr KNZ cardK by blast
qed

lemma last_k_choice_spec: "choice_spec last_k_choice"
  by (auto simp: choice_spec_def last_k_choice_def dest: in_set_takeD)

lemma length_filter_enumerate:
  "length (filter (\<lambda>(id, elem). id \<in> S) (enumerate 0 ys)) = card (S \<inter> {..<length ys})"
proof -
  have "(\<lambda>(id, elem). id \<in> S) = (\<lambda>id. id \<in> S) \<circ> (fst :: nat \<times> 'a \<Rightarrow> nat)"
    by auto
  then have "length (filter (\<lambda>(id, elem). id \<in> S) (enumerate 0 ys))
      = length (map fst (filter ((\<lambda>id. id \<in> S) \<circ> fst) (enumerate 0 ys)))"
    by simp
  also have "\<dots> = length (filter (\<lambda>id. id \<in> S) (map fst (enumerate 0 ys)))"
    by (simp only: filter_map)
  also have "\<dots> = length (filter (\<lambda>id. id \<in> S) [0..<length ys])"
    by simp
  also have "\<dots> = card (set (filter (\<lambda>id. id \<in> S) [0..<length ys]))"
    by (rule distinct_card [symmetric]) simp
  also have "set (filter (\<lambda>id. id \<in> S) [0..<length ys]) = S \<inter> {..<length ys}"
    by auto
  finally show ?thesis .
qed

lemma set_selected_subset:
  "set (map snd (filter P (enumerate 0 ys))) \<subseteq> set ys"
  by (auto simp: in_set_enumerate_eq)

lemma filter_selected_other:
  assumes "\<And>x. x \<in> set ys \<Longrightarrow> \<not> Q x"
  shows "filter Q (map snd (filter P (enumerate 0 ys))) = []"
  using assms set_selected_subset [of P ys] by (auto simp: filter_empty_conv)

lemma filter_selected_same:
  assumes "\<And>x. x \<in> set ys \<Longrightarrow> Q x"
  shows "filter Q (map snd (filter P (enumerate 0 ys))) = map snd (filter P (enumerate 0 ys))"
  using assms set_selected_subset [of P ys] by (auto simp: filter_id_conv)


lemma has_shape_T: "has_shape (r, c) a \<Longrightarrow> 0 < r \<Longrightarrow> has_shape (c, r) (T a)"
proof -
  assume sh: "has_shape (r, c) a" and r: "0 < r"
  then have "T a = map (\<lambda>j. map (\<lambda>i. a ! i ! j) [0..<r]) [0..<c]"
    by (simp add: T_def has_shape_nrows has_shape_ncols)
  then show ?thesis by (simp add: has_shape_nth)
qed

lemma has_shape_transform [simp]: "has_shape s (transform scaler X) = has_shape s X"
  by (cases s) (auto simp: has_shape_nth transform_def)

lemma fit_Inr:
  "has_shape (r, c) X \<Longrightarrow> 0 < r \<Longrightarrow> 0 < c \<Longrightarrow> \<exists>scaler. fit X = Inr scaler"
  by (simp add: fit_def has_shape_nrows has_shape_ncols)

lemma length_concat_has_shape: "has_shape (r, c) a \<Longrightarrow> length (concat a) = r * c"
  by (induction a arbitrary: r) (auto simp: has_shape_def)

lemma has_shape_reshape_column: "has_shape (length xs, 1) (reshape_column xs)"
  by (simp add: has_shape_nth reshape_column_def)

lemma reshape_Inr:
  assumes "length (concat a) = r * c"
  shows "\<exists>b. reshape (r, c) a = Inr b \<and> has_shape (r, c) b"
proof -
  have "length (take c (drop (i * c) (concat a))) = c" if "i < r" for i
  proof -
    have "Suc i * c \<le> r * c" using that by (intro mult_le_mono1) simp
    then show ?thesis using assms by simp
  qed
  then show ?thesis using assms by (simp add: reshape_def has_shape_nth)
qed


lemma nrows_replicate [simp]: "nrows (replicate n r) = n"
  by (simp add: nrows_def)

lemma ncols_replicate [simp]: "0 < n \<Longrightarrow> ncols (replicate n r) = length r"
  by (cases n) (simp_all add: ncols_def)


lemma process_loop_skips:
  "process_loop FMRI assemble filtered_people data_list =
   process_loop FMRI assemble (filter (\<lambda>(person, ts). 84 \<le> nrows ts) filtered_people) data_list"
proof (induction filtered_people arbitrary: data_list)
  case Nil
  then show ?case by simp
next
  case (Cons p filtered_people)
  obtain person ts where p: "p = (person, ts)" by (cases p)
  show ?case
    by (simp add: p Cons.IH Let_def split: sum.splits)
qed

lemma process_loop_aborts:
  assumes "(person, ts) \<in> set filtered_people"
    and "84 \<le> nrows ts" and "ncols ts \<noteq> 490" and "ncols ts \<noteq> 523"
  shows "\<exists>e. process_loop FMRI assemble filtered_people data_list = Inl e"
  using assms(1)
proof (induction filtered_people arbitrary: data_list)
  case Nil
  then show ?case by simp
next
  case (Cons p filtered_people)
  obtain person' ts' where p: "p = (person', ts')" by (cases p)
  show ?case
  proof (cases "p = (person, ts)")
    case True
    then show ?thesis using assms(2-4) by (simp add: shape_def)
  next
    case False
    then have "(person, ts) \<in> set filtered_people" using Cons.prems by simp
    from Cons.IH [OF this] show ?thesis
      by (auto simp: p Let_def split: sum.splits)
  qed
qed

lemma has_shape_ramp_block: "has_shape (2, 1200) ramp_block"
  by (simp add: has_shape_def ramp_block_def del: upt_rec_numeral)

lemma calculate_stats_features_rows:
  assumes sh: "has_shape (N, L) timeseries" and N: "0 < N" and NL: "N < L"
    and ok: "\<forall>d. \<forall>row\<in>set timeseries. \<exists>v. desc d row = Inr v"
  shows "\<exists>m. calculate_stats_features desc timeseries = Inr m \<and> has_shape (N, 16) m \<and>
     (\<forall>i<N. m ! i = map (\<lambda>d. projr (desc d (timeseries ! i))) merged_stats_order)"
proof -
  from sh N have len: "length timeseries = N" and ne: "timeseries \<noteq> []"
    by (auto simp: has_shape_def)
  from sh ne have nc: "ncols timeseries = L"
    by (cases timeseries) (auto simp: has_shape_def ncols_def)
  have nr: "nrows timeseries = N" using len by (simp add: nrows_def)
  define merged where
    "merged = map (\<lambda>d. map (\<lambda>row. projr (desc d row)) timeseries) merged_stats_order"
  have seq: "sequence_err (map (\<lambda>d. apply_along_axis1 (desc d) timeseries) merged_stats_order)
      = Inr merged"
  proof -
    have "map (\<lambda>d. apply_along_axis1 (desc d) timeseries) merged_stats_order
        = map (\<lambda>d. Inr (map (\<lambda>row. projr (desc d row)) timeseries)) merged_stats_order"
      using ok by (simp add: apply_along_axis1_Inr)
    then show ?thesis
      by (simp add: sequence_err_Inr list_all_iff merged_def o_def)
  qed
  have res: "calculate_stats_features desc timeseries = Inr (T merged)"
    using NL by (simp add: calculate_stats_features_def nc nr seq)
  have ncm: "ncols merged = N"
    by (simp add: merged_def merged_stats_order_def ncols_def len)
  have nrm: "nrows merged = 16"
    by (simp add: merged_def nrows_def length_merged_stats_order)
  have row: "T merged ! i = map (\<lambda>d. projr (desc d (timeseries ! i))) merged_stats_order"
    if "i < N" for i
  proof -
    have "T merged ! i = map (\<lambda>k. merged ! k ! i) [0..<16]"
      using that by (simp add: T_nth ncm nrm)
    also have "\<dots> = map (\<lambda>k. projr (desc (merged_stats_order ! k) (timeseries ! i))) [0..<16]"
      using that by (simp add: merged_def len length_merged_stats_order)
    also have "\<dots> = map (\<lambda>d. projr (desc d (timeseries ! i))) (map ((!) merged_stats_order) [0..<length merged_stats_order])"
      by (simp add: length_merged_stats_order o_def)
    also have "\<dots> = map (\<lambda>d. projr (desc d (timeseries ! i))) merged_stats_order"
      by (simp only: map_nth)
    finally show ?thesis .
  qed
  have "has_shape (N, 16) (T merged)"
    unfolding has_shape_def list_all_length
    using row by (simp add: T_def ncm length_merged_stats_order)
  with res row show ?thesis by blast
qed


lemma has_shape_nan_to_zero [simp]: "has_shape s (nan_to_zero a) = has_shape s a"
  by (cases s) (auto simp: has_shape_nth nan_to_zero_def)




text \<open>
  The worked example of the specification: four nodes, strengths 4, 3, 1, 2, 0, 5 above
  the diagonal, threshold 50. The three strongest pairs are kept, in both directions,
  with the four self-loops.
\<close>

lemma create_thresholded_graph_example:
  "map_sum id edges
     (snd (create_thresholded_graph stable_argsort
        [[0, 4, 3, 1], [0, 0, 2, 0], [0, 0, 0, 5], [0, 0, 0, 0]] 50 4))
     = Inr [(0, 0), (0, 1), (0, 2), (1, 0), (1, 1), (2, 0), (2, 2), (2, 3), (3, 2), (3, 3)]"
proof -
  have nf: "num_to_filter 50 4 = 3" using num_to_filter_std [of 50 4] by simp
  show ?thesis
    unfolding create_thresholded_graph_def threshold_adj_array_def nf by code_simp
qed

section \<open>Claims\<close>

subsection \<open>C1\<close>

text \<open>
  C1, as the code has it. For every square matrix of size \<open>n\<close> and every threshold in
  \<open>{0, 5, 20, 50, 100}\<close>, the graph has, self-loops excluded, exactly
  \<open>2 \<times> min (\<lfloor>threshold/100 \<times> n(n-1)/2\<rfloor>) z\<close> edges, where \<open>z\<close> is the number of nonzero
  entries above the diagonal: line 48 ranks the nonzero entries only, so a zero entry
  never becomes an edge. The count is \<open>2 \<times> \<lfloor>threshold/100 \<times> n(n-1)/2\<rfloor>\<close> whenever at least
  that many entries above the diagonal are nonzero. At these five thresholds the
  doubles of line 42 give the exact integer part.
\<close>

theorem proper_edge_count:
  assumes sq: "has_shape (n, n) adj_array" and spec: "argsort_spec argsort"
    and std: "threshold \<in> {0, 5, 20, 50, 100}"
  shows "\<exists>caller_array G.
     create_thresholded_graph argsort adj_array threshold n = (caller_array, Inr G) \<and>
     number_of_proper_edges G =
       2 * min (nat \<lfloor>real_of_int threshold / 100 * (real (n * (n - 1)) / 2)\<rfloor>)
             (count_nonzero_upper adj_array n)"
proof -
  have t0: "0 \<le> threshold" using std by auto
  from builder_graph [OF sq spec t0] obtain caller_array G K where
    cr: "create_thresholded_graph argsort adj_array threshold n = (caller_array, Inr G)" and
    KNZ: "K \<subseteq> {(i, j). i < j \<and> j < n \<and> adj_array ! i ! j \<noteq> 0}" and
    cardK: "card K = min (nat (num_to_filter threshold n)) (count_nonzero_upper adj_array n)" and
    dist: "distinct (edges G)" and
    es: "set (edges G) = {(i, i) | i. i < n} \<union> K \<union> prod.swap ` K"
    by blast
  have fin: "finite K"
    by (rule finite_subset [OF KNZ finite_upper_nonzero])
  have upper: "i < j" if "(i, j) \<in> K" for i j
    using that KNZ by auto
  have "p \<notin> prod.swap ` K" if "p \<in> K" for p
  proof -
    obtain i j where p: "p = (i, j)" by (cases p)
    from that upper have "i < j" by (simp add: p)
    then have "(j, i) \<notin> K" using upper [of j i] by auto
    then show ?thesis by (simp add: p swap_image_iff)
  qed
  then have disj: "K \<inter> prod.swap ` K = {}" by blast
  have "card (set (filter (\<lambda>(u, v). u \<noteq> v) (edges G)))
      = length (filter (\<lambda>(u, v). u \<noteq> v) (edges G))"
    by (rule distinct_card) (simp add: dist)
  moreover have "set (filter (\<lambda>(u, v). u \<noteq> v) (edges G)) = K \<union> prod.swap ` K"
  proof -
    have "p \<in> set (filter (\<lambda>(u, v). u \<noteq> v) (edges G)) \<longleftrightarrow> p \<in> K \<union> prod.swap ` K" for p
    proof -
      obtain i j where p: "p = (i, j)" by (cases p)
      have "i \<noteq> j" if "(i, j) \<in> K \<or> (j, i) \<in> K"
        using that upper [of i j] upper [of j i] by auto
      then show ?thesis by (auto simp: p es swap_image_iff)
    qed
    then show ?thesis by blast
  qed
  ultimately have "number_of_proper_edges G = card (K \<union> prod.swap ` K)"
    by (simp add: number_of_proper_edges_def)
  also have "\<dots> = card K + card (prod.swap ` K)"
    by (rule card_Un_disjoint) (simp_all add: fin disj)
  also have "card (prod.swap ` K) = card K"
    by (rule card_image) simp
  finally have "number_of_proper_edges G = 2 * card K" by simp
  then have "number_of_proper_edges G =
       2 * min (nat \<lfloor>real_of_int threshold / 100 * (real (n * (n - 1)) / 2)\<rfloor>)
             (count_nonzero_upper adj_array n)"
    by (simp only: cardK num_to_filter_std [OF std])
  with cr show ?thesis by blast
qed

theorem proper_edge_count_witness:
  "has_shape (3, 3) [[0, 1, 0], [1, 0, 2], [0, 2, 0::real]] \<and>
   (50::int) \<in> {0, 5, 20, 50, 100} \<and>
   (\<exists>caller_array G.
     create_thresholded_graph stable_argsort [[0, 1, 0], [1, 0, 2], [0, 2, 0]] 50 3
       = (caller_array, Inr G) \<and>
     number_of_proper_edges G = 2)"
proof -
  have c: "count_nonzero_upper [[0, 1, 0], [1, 0, 2], [0, 2, 0]] 3 = 2"
    by code_simp
  have f: "nat \<lfloor>real_of_int 50 / 100 * (real (3 * (3 - 1)) / 2)\<rfloor> = 1"
    by simp
  show ?thesis
    using proper_edge_count [OF _ stable_argsort_spec, of 3 "[[0, 1, 0], [1, 0, 2], [0, 2, 0]]" 50]
    unfolding c f by (simp add: has_shape_def)
qed

text \<open>
  C1, as stated, fails: the non-negative matrix \<open>[[0, 1, 0], [1, 0, 2], [0, 2, 0]]\<close>
  with threshold 100 gives 4 edges that are not self-loops, where the formula gives 6.
\<close>

theorem proper_edge_count_counterexample:
  "map_sum id number_of_proper_edges
     (snd (create_thresholded_graph stable_argsort [[0, 1, 0], [1, 0, 2], [0, 2, 0]] 100 3))
     = Inr 4 \<and>
   2 * nat \<lfloor>real_of_int 100 / 100 * (real (3 * (3 - 1)) / 2)\<rfloor> = (6::nat)"
proof -
  have nf: "num_to_filter 100 3 = 3" using num_to_filter_std [of 100 3] by simp
  have "map_sum id number_of_proper_edges
     (snd (create_thresholded_graph stable_argsort [[0, 1, 0], [1, 0, 2], [0, 2, 0]] 100 3))
     = Inr 4"
    unfolding create_thresholded_graph_def threshold_adj_array_def nf by code_simp
  then show ?thesis by simp
qed

subsection \<open>C2\<close>

text \<open>
  C2. For every square matrix, every integer threshold and every node count that fits
  the matrix (so in particular for a non-negative matrix, a threshold in [0,100] and the
  matrix's own size), the graph builder returns a graph whose edge relation is
  symmetric and in which every node index below \<open>num_nodes\<close> has a self-loop.
\<close>

theorem graph_symmetric_self_loops:
  assumes sq: "has_shape (d, d) adj_array" and nd: "num_nodes \<le> d"
    and spec: "argsort_spec argsort"
  shows "\<exists>caller_array G.
     create_thresholded_graph argsort adj_array threshold num_nodes = (caller_array, Inr G) \<and>
     (\<forall>i j. (i, j) \<in> set (edges G) \<longleftrightarrow> (j, i) \<in> set (edges G)) \<and>
     (\<forall>i<num_nodes. (i, i) \<in> set (edges G))"
proof -
  define a2 where "a2 = put (put adj_array (tril_indices num_nodes) 0)
     (slice_from (num_to_filter threshold num_nodes)
        (ranked_positions argsort (put adj_array (tril_indices num_nodes) 0))) 0"
  define r where "r = put (add a2 (T a2)) (diag_indices num_nodes) 1"
  have res: "threshold_adj_array argsort adj_array threshold num_nodes = (a2, Inr r)"
    by (simp add: threshold_adj_array_unfold [OF sq nd spec] a2_def r_def Let_def)
  have sq2: "has_shape (d, d) a2" using sq by (simp add: a2_def)
  have sqr: "has_shape (d, d) r" unfolding r_def by (rule has_shape_symmetrised [OF sq2])
  have entry: "r ! i ! j = (if i = j \<and> i < num_nodes then 1 else a2 ! i ! j + a2 ! j ! i)"
    if "i < d" "j < d" for i j
    unfolding r_def by (rule symmetrised_nth [OF sq2 nd that])
  from from_numpy_array_square [OF sqr] obtain G
    where G: "from_numpy_array r = Inr G" "edges G = where_nonzero r" by blast
  have mem: "(i, j) \<in> set (edges G) \<longleftrightarrow> i < d \<and> j < d \<and> r ! i ! j \<noteq> 0" for i j
    by (simp add: G set_where_nonzero [OF sqr])
  have rs: "r ! i ! j = r ! j ! i" if "i < d" "j < d" for i j
    using that by (cases "i = j") (simp_all add: entry add.commute)
  have sym: "(i, j) \<in> set (edges G) \<longleftrightarrow> (j, i) \<in> set (edges G)" for i j
    using rs [of i j] by (auto simp: mem)
  have loops: "(i, i) \<in> set (edges G)" if "i < num_nodes" for i
    using that nd by (simp add: mem entry)
  have "create_thresholded_graph argsort adj_array threshold num_nodes = (a2, Inr G)"
    by (simp add: create_thresholded_graph_def res G)
  with sym loops show ?thesis by blast
qed

theorem graph_symmetric_self_loops_witness:
  "has_shape (4, 4) [[1, 4, 3, 1], [4, 1, 2, 0], [3, 2, 1, 5], [1, 0, 5, 1::real]] \<and>
   (\<exists>caller_array G.
     create_thresholded_graph stable_argsort
       [[1, 4, 3, 1], [4, 1, 2, 0], [3, 2, 1, 5], [1, 0, 5, 1]] 50 4 = (caller_array, Inr G) \<and>
     (\<forall>i j. (i, j) \<in> set (edges G) \<longleftrightarrow> (j, i) \<in> set (edges G)) \<and>
     (\<forall>i<4. (i, i) \<in> set (edges G)))"
  using graph_symmetric_self_loops [OF _ _ stable_argsort_spec,
      of 4 "[[1, 4, 3, 1], [4, 1, 2, 0], [3, 2, 1, 5], [1, 0, 5, 1]]" 4 50]
  by (simp add: has_shape_def)

subsection \<open>C3\<close>

text \<open>
  C3, as the code has it. On every square matrix, threshold 0 yields exactly the
  self-loops. Threshold 100 yields the self-loops and, in both directions, an edge for
  every pair of nodes whose entry above the diagonal is nonzero; this is the complete
  graph when all entries above the diagonal are nonzero.
\<close>

theorem threshold_extremes:
  assumes sq: "has_shape (n, n) adj_array" and spec: "argsort_spec argsort"
  shows "(\<exists>caller_array G.
       create_thresholded_graph argsort adj_array 0 n = (caller_array, Inr G) \<and>
       set (edges G) = {(i, i) | i. i < n}) \<and>
     (\<exists>caller_array G.
       create_thresholded_graph argsort adj_array 100 n = (caller_array, Inr G) \<and>
       set (edges G) =
         {(i, j). i < n \<and> j < n \<and> (i = j \<or> adj_array ! min i j ! max i j \<noteq> 0)})"
proof
  from builder_graph [OF sq spec, of 0] obtain caller_array G K where
    cr: "create_thresholded_graph argsort adj_array 0 n = (caller_array, Inr G)" and
    KNZ: "K \<subseteq> {(i, j). i < j \<and> j < n \<and> adj_array ! i ! j \<noteq> 0}" and
    cardK: "card K = min (nat (num_to_filter 0 n)) (count_nonzero_upper adj_array n)" and
    es: "set (edges G) = {(i, i) | i. i < n} \<union> K \<union> prod.swap ` K"
    by auto
  have "finite K" by (rule finite_subset [OF KNZ finite_upper_nonzero])
  with cardK have "K = {}" by simp
  with cr es show "\<exists>caller_array G.
       create_thresholded_graph argsort adj_array 0 n = (caller_array, Inr G) \<and>
       set (edges G) = {(i, i) | i. i < n}"
    by simp
next
  let ?NZ = "{(i, j). i < j \<and> j < n \<and> adj_array ! i ! j \<noteq> 0}"
  from builder_graph [OF sq spec, of 100] obtain caller_array G K where
    cr: "create_thresholded_graph argsort adj_array 100 n = (caller_array, Inr G)" and
    KNZ: "K \<subseteq> ?NZ" and
    cardK: "card K = min (nat (num_to_filter 100 n)) (count_nonzero_upper adj_array n)" and
    es: "set (edges G) = {(i, i) | i. i < n} \<union> K \<union> prod.swap ` K"
    by auto
  have "count_nonzero_upper adj_array n \<le> nat (num_to_filter 100 n)"
    using count_nonzero_upper_le [of adj_array n] num_to_filter_100 [of n] by linarith
  then have "card K = card ?NZ"
    using cardK by (simp add: count_nonzero_upper_card)
  then have K: "K = ?NZ"
    using KNZ by (simp add: card_subset_eq finite_upper_nonzero)
  have "set (edges G) = {(i, j). i < n \<and> j < n \<and> (i = j \<or> adj_array ! min i j ! max i j \<noteq> 0)}"
    unfolding es K
    by (auto simp: min_def max_def image_iff split: if_splits)
  with cr show "\<exists>caller_array G.
       create_thresholded_graph argsort adj_array 100 n = (caller_array, Inr G) \<and>
       set (edges G) =
         {(i, j). i < n \<and> j < n \<and> (i = j \<or> adj_array ! min i j ! max i j \<noteq> 0)}"
    by blast
qed

theorem threshold_extremes_witness:
  "has_shape (2, 2) [[0, 3], [3, 0::real]] \<and>
   (\<exists>caller_array G.
       create_thresholded_graph stable_argsort [[0, 3], [3, 0]] 0 2 = (caller_array, Inr G) \<and>
       set (edges G) = {(i, i) | i. i < 2}) \<and>
     (\<exists>caller_array G.
       create_thresholded_graph stable_argsort [[0, 3], [3, 0]] 100 2 = (caller_array, Inr G) \<and>
       set (edges G) =
         {(i, j). i < 2 \<and> j < 2 \<and> (i = j \<or> [[0, 3], [3, 0::real]] ! min i j ! max i j \<noteq> 0)})"
  using threshold_extremes [OF _ stable_argsort_spec, of 2 "[[0, 3], [3, 0]]"]
  by (simp add: has_shape_def)

text \<open>
  C3, as stated, fails for threshold 100: in the non-negative matrix below the pair
  \<open>(1, 3)\<close> has strength 0, and the graph has no edge between nodes 1 and 3.
\<close>

theorem complete_graph_counterexample:
  "map_sum id edges
     (snd (create_thresholded_graph stable_argsort
        [[0, 4, 3, 1], [4, 0, 2, 0], [3, 2, 0, 5], [1, 0, 5, 0]] 100 4))
     = Inr [(0, 0), (0, 1), (0, 2), (0, 3), (1, 0), (1, 1), (1, 2),
            (2, 0), (2, 1), (2, 2), (2, 3), (3, 0), (3, 2), (3, 3)] \<and>
   (1::nat, 3) \<notin> set [(0, 0), (0, 1), (0, 2), (0, 3), (1, 0), (1, 1), (1, 2),
            (2, 0), (2, 1), (2, 2), (2, 3), (3, 0), (3, 2), (3, 3::nat)]"
proof -
  have nf: "num_to_filter 100 4 = 6" using num_to_filter_std [of 100 4] by simp
  have "map_sum id edges
     (snd (create_thresholded_graph stable_argsort
        [[0, 4, 3, 1], [4, 0, 2, 0], [3, 2, 0, 5], [1, 0, 5, 0]] 100 4))
     = Inr [(0, 0), (0, 1), (0, 2), (0, 3), (1, 0), (1, 1), (1, 2),
            (2, 0), (2, 1), (2, 2), (2, 3), (3, 0), (3, 2), (3, 3)]"
    unfolding create_thresholded_graph_def threshold_adj_array_def nf by code_simp
  then show ?thesis by simp
qed

subsection \<open>C4\<close>




subsection \<open>C5\<close>

text \<open>
  C5, as the code has it. A subject whose array has fewer than 84 rows is passed over:
  the run gives what it gives without that subject, and nothing is counted. A subject
  with at least 84 rows whose series length is neither 490 nor 523 fails the shape
  assertion of line 335: the run that meets it first ends in an assertion error, and
  no run over a population that holds such a subject returns a collection.
\<close>

theorem ukb_short_skipped_mismatch_aborts:
  "UKBDataset_process FMRI assemble filtered_people =
     UKBDataset_process FMRI assemble
       (filter (\<lambda>(person, ts). 84 \<le> nrows ts) filtered_people) \<and>
   (84 \<le> nrows ts \<and> ncols ts \<noteq> 490 \<and> ncols ts \<noteq> 523 \<longrightarrow>
      UKBDataset_process FMRI assemble ((person, ts) # rest) = Inl AssertionError) \<and>
   ((\<exists>(person, ts) \<in> set filtered_people. 84 \<le> nrows ts \<and> ncols ts \<noteq> 490 \<and> ncols ts \<noteq> 523) \<longrightarrow>
      (\<exists>e. UKBDataset_process FMRI assemble filtered_people = Inl e))"
proof (intro conjI impI)
  show "UKBDataset_process FMRI assemble filtered_people =
     UKBDataset_process FMRI assemble
       (filter (\<lambda>(person, ts). 84 \<le> nrows ts) filtered_people)"
    unfolding UKBDataset_process_def by (rule process_loop_skips)
next
  assume "84 \<le> nrows ts \<and> ncols ts \<noteq> 490 \<and> ncols ts \<noteq> 523"
  then show "UKBDataset_process FMRI assemble ((person, ts) # rest) = Inl AssertionError"
    by (simp add: UKBDataset_process_def shape_def)
next
  assume "\<exists>(person, ts) \<in> set filtered_people. 84 \<le> nrows ts \<and> ncols ts \<noteq> 490 \<and> ncols ts \<noteq> 523"
  then obtain person ts where "(person, ts) \<in> set filtered_people"
    "84 \<le> nrows ts" "ncols ts \<noteq> 490" "ncols ts \<noteq> 523"
    by auto
  then show "\<exists>e. UKBDataset_process FMRI assemble filtered_people = Inl e"
    unfolding UKBDataset_process_def by (rule process_loop_aborts)
qed

theorem ukb_short_skipped_mismatch_aborts_witness:
  "UKBDataset_process FMRI UKBDataset_assemble
       [(1, replicate 3 (replicate 490 0)), (2, replicate 84 (replicate 400 0))] =
     UKBDataset_process FMRI UKBDataset_assemble [(2, replicate 84 (replicate 400 0))] \<and>
   UKBDataset_process FMRI UKBDataset_assemble
       ((2, replicate 84 (replicate 400 0)) # []) = Inl AssertionError \<and>
   (\<exists>e. UKBDataset_process FMRI UKBDataset_assemble
       [(1, replicate 3 (replicate 490 0)), (2, replicate 84 (replicate 400 0))] = Inl e)"
  using ukb_short_skipped_mismatch_aborts [of UKBDataset_assemble
      "[(1, replicate 3 (replicate 490 0)), (2, replicate 84 (replicate 400 0))]"
      "replicate 84 (replicate 400 0)" 2 "[]"]
  by simp

text \<open>
  C5, as stated, fails: one subject with 84 rows and a series of length 400 is not
  skipped; the run ends in an assertion error and returns no collection.
\<close>

theorem ukb_mismatch_skipped_counterexample:
  "UKBDataset_process FMRI UKBDataset_assemble [(1, replicate 84 (replicate 400 0))]
     = Inl AssertionError"
  by (simp add: UKBDataset_process_def shape_def)

subsection \<open>C6\<close>

text \<open>
  C6. The class-balancing step draws its sample from a generator seeded with the
  constant 0, so the selected indices are a function of the two class counts alone
  and two invocations on identical inputs select the same indices. Its output keeps
  every sample of the minority label, in order, and holds as many samples of label 0
  as of label 1, namely the minority count.
\<close>

theorem random_downsample_balanced:
  fixes data_list :: "'a data list"
  assumes spec: "choice_spec choice"
  shows "numbers_sample choice data_list
           = choice 0 (max (count_label 0 data_list) (count_label 1 data_list))
               (min (count_label 0 data_list) (count_label 1 data_list)) \<and>
         filter (\<lambda>x. data_y x = (if count_label 1 data_list < count_label 0 data_list then 1 else 0))
             (random_downsample choice data_list)
           = filter (\<lambda>x. data_y x = (if count_label 1 data_list < count_label 0 data_list then 1 else 0))
               data_list \<and>
         count_label 0 (random_downsample choice data_list)
           = min (count_label 0 data_list) (count_label 1 data_list) \<and>
         count_label 1 (random_downsample choice data_list)
           = min (count_label 0 data_list) (count_label 1 data_list)"
proof -
  define negative_num where "negative_num = count_label 0 data_list"
  define positive_num where "positive_num = count_label 1 data_list"
  define minority :: int where "minority = (if positive_num < negative_num then 1 else 0)"
  define majority :: int where "majority = (if positive_num < negative_num then 0 else 1)"
  have ns: "numbers_sample choice data_list
           = choice 0 (max negative_num positive_num) (min negative_num positive_num)"
    by (simp add: numbers_sample_def negative_num_def positive_num_def count_label_def
        Let_def max_def min_def)
  define S where "S = set (numbers_sample choice data_list)"
  define y_0 where "y_0 = filter (\<lambda>x. data_y x = majority) data_list"
  define sel where "sel = map snd (filter (\<lambda>(id, elem). id \<in> S) (enumerate 0 y_0))"
  have res: "random_downsample choice data_list
      = filter (\<lambda>x. data_y x = minority) data_list @ sel"
    by (simp add: random_downsample_def Let_def sel_def y_0_def S_def majority_def minority_def
        negative_num_def positive_num_def count_label_def)
  have ne: "majority \<noteq> minority" by (simp add: majority_def minority_def)
  have len_maj: "length y_0 = max negative_num positive_num"
    by (auto simp: y_0_def majority_def negative_num_def positive_num_def count_label_def max_def)
  have len_min: "length (filter (\<lambda>x. data_y x = minority) data_list)
      = min negative_num positive_num"
    by (auto simp: minority_def negative_num_def positive_num_def count_label_def min_def)
  have le: "min negative_num positive_num \<le> max negative_num positive_num" by simp
  from spec le have
    "length (choice 0 (max negative_num positive_num) (min negative_num positive_num))
       = min negative_num positive_num"
    "distinct (choice 0 (max negative_num positive_num) (min negative_num positive_num))"
    "set (choice 0 (max negative_num positive_num) (min negative_num positive_num))
       \<subseteq> {..<max negative_num positive_num}"
    unfolding choice_spec_def by blast+
  then have cardS: "card S = min negative_num positive_num"
    and subS: "S \<subseteq> {..<length y_0}"
    by (simp_all add: S_def ns len_maj distinct_card)
  have "length sel = card (S \<inter> {..<length y_0})"
    unfolding sel_def by (simp add: length_filter_enumerate)
  also have "S \<inter> {..<length y_0} = S" using subS by blast
  finally have len_sel: "length sel = min negative_num positive_num"
    by (simp add: cardS)
  have sel_min: "filter (\<lambda>x. data_y x = minority) sel = []"
    unfolding sel_def by (rule filter_selected_other) (use ne in \<open>auto simp: y_0_def\<close>)
  have sel_maj: "filter (\<lambda>x. data_y x = majority) sel = sel"
    unfolding sel_def by (rule filter_selected_same) (auto simp: y_0_def)
  have keep: "filter (\<lambda>x. data_y x = minority) (random_downsample choice data_list)
           = filter (\<lambda>x. data_y x = minority) data_list"
    by (simp add: res sel_min)
  have cnt_min: "count_label minority (random_downsample choice data_list)
      = min negative_num positive_num"
    by (simp add: count_label_def res sel_min len_min)
  have "filter (\<lambda>x. data_y x = majority) (filter (\<lambda>x. data_y x = minority) data_list) = []"
    using ne by (auto simp: filter_empty_conv)
  then have cnt_maj: "count_label majority (random_downsample choice data_list)
      = min negative_num positive_num"
    by (simp add: count_label_def res sel_maj len_sel)
  have c0: "count_label 0 (random_downsample choice data_list) = min negative_num positive_num"
    using cnt_min cnt_maj
    by (cases "positive_num < negative_num") (simp_all add: minority_def majority_def)
  have c1: "count_label 1 (random_downsample choice data_list) = min negative_num positive_num"
    using cnt_min cnt_maj
    by (cases "positive_num < negative_num") (simp_all add: minority_def majority_def)
  from ns keep c0 c1 show ?thesis
    unfolding negative_num_def positive_num_def minority_def by blast
qed

theorem random_downsample_balanced_witness:
  "numbers_sample last_k_choice
       [\<lparr>data_y = 0, data_rest = ''a''\<rparr>, \<lparr>data_y = 1, data_rest = ''b''\<rparr>,
        \<lparr>data_y = 0, data_rest = ''c''\<rparr>, \<lparr>data_y = 0, data_rest = ''d''\<rparr>] = [2] \<and>
   random_downsample last_k_choice
       [\<lparr>data_y = 0, data_rest = ''a''\<rparr>, \<lparr>data_y = 1, data_rest = ''b''\<rparr>,
        \<lparr>data_y = 0, data_rest = ''c''\<rparr>, \<lparr>data_y = 0, data_rest = ''d''\<rparr>]
     = [\<lparr>data_y = 1, data_rest = ''b''\<rparr>, \<lparr>data_y = 0, data_rest = ''d''\<rparr>] \<and>
   count_label 0 (random_downsample last_k_choice
       [\<lparr>data_y = 0, data_rest = ''a''\<rparr>, \<lparr>data_y = 1, data_rest = ''b''\<rparr>,
        \<lparr>data_y = 0, data_rest = ''c''\<rparr>, \<lparr>data_y = 0, data_rest = ''d''\<rparr>]) = 1 \<and>
   count_label 1 (random_downsample last_k_choice
       [\<lparr>data_y = 0, data_rest = ''a''\<rparr>, \<lparr>data_y = 1, data_rest = ''b''\<rparr>,
        \<lparr>data_y = 0, data_rest = ''c''\<rparr>, \<lparr>data_y = 0, data_rest = ''d''\<rparr>]) = 1"
proof -
  have rd: "random_downsample last_k_choice
       [\<lparr>data_y = 0, data_rest = ''a''\<rparr>, \<lparr>data_y = 1, data_rest = ''b''\<rparr>,
        \<lparr>data_y = 0, data_rest = ''c''\<rparr>, \<lparr>data_y = 0, data_rest = ''d''\<rparr>]
     = [\<lparr>data_y = 1, data_rest = ''b''\<rparr>, \<lparr>data_y = 0, data_rest = ''d''\<rparr>]"
    by code_simp
  have c: "count_label 0 [\<lparr>data_y = 0, data_rest = ''a''\<rparr>, \<lparr>data_y = 1, data_rest = ''b''\<rparr>,
        \<lparr>data_y = 0, data_rest = ''c''\<rparr>, \<lparr>data_y = 0, data_rest = ''d''\<rparr>] = 3"
     "count_label 1 [\<lparr>data_y = 0, data_rest = ''a''\<rparr>, \<lparr>data_y = 1, data_rest = ''b''\<rparr>,
        \<lparr>data_y = 0, data_rest = ''c''\<rparr>, \<lparr>data_y = 0, data_rest = ''d''\<rparr>] = 1"
    by (simp_all add: count_label_def)
  have ch: "last_k_choice 0 3 (Suc 0) = [2]" by code_simp
  show ?thesis
    using random_downsample_balanced [OF last_k_choice_spec,
        of "[\<lparr>data_y = 0, data_rest = ''a''\<rparr>, \<lparr>data_y = 1, data_rest = ''b''\<rparr>,
             \<lparr>data_y = 0, data_rest = ''c''\<rparr>, \<lparr>data_y = 0, data_rest = ''d''\<rparr>]"]
    by (simp add: c ch rd)
qed

subsection \<open>C7\<close>

text \<open>
  C7. For every block of shape \<open>(time_length, num_nodes)\<close> with at least one node and
  \<open>time_length > num_nodes\<close>, the normaliser returns, in each of its three modes, an
  array of shape \<open>(num_nodes, time_length)\<close>.
\<close>

theorem normalise_timeseries_shape:
  assumes sh: "has_shape (time_length, num_nodes) timeseries"
    and n0: "0 < num_nodes" and lt: "num_nodes < time_length"
  shows "\<exists>r. normalise_timeseries timeseries normalisation = Inr r \<and>
             has_shape (num_nodes, time_length) r"
proof (cases normalisation)
  case NONE
  then show ?thesis using has_shape_T [OF sh] lt by (simp add: normalise_timeseries_def)
next
  case ROI
  from fit_Inr [OF sh _ n0] lt obtain scaler where "fit timeseries = Inr scaler" by auto
  moreover have "has_shape (num_nodes, time_length) (T (transform scaler timeseries))"
    using has_shape_T [of time_length num_nodes "transform scaler timeseries"] sh lt by simp
  ultimately show ?thesis using ROI by (simp add: normalise_timeseries_def)
next
  case SUBJECT
  define col where "col = reshape_column (flatten timeseries)"
  have len: "length (flatten timeseries) = time_length * num_nodes"
    unfolding flatten_def by (rule length_concat_has_shape [OF sh])
  then have shc: "has_shape (time_length * num_nodes, 1) col"
    using has_shape_reshape_column [of "flatten timeseries"] by (simp add: col_def)
  have pos: "0 < time_length * num_nodes" using n0 lt by simp
  from fit_Inr [OF shc pos] obtain scaler where f: "fit col = Inr scaler" by auto
  have "has_shape (time_length * num_nodes, 1) (transform scaler col)" using shc by simp
  then have "length (concat (transform scaler col)) = time_length * num_nodes"
    using length_concat_has_shape by fastforce
  from reshape_Inr [OF this] obtain b
    where b: "reshape (time_length, num_nodes) (transform scaler col) = Inr b"
      "has_shape (time_length, num_nodes) b" by blast
  have shp: "shape timeseries = (time_length, num_nodes)"
    using sh lt by (simp add: shape_def has_shape_nrows has_shape_ncols)
  have "has_shape (num_nodes, time_length) (T b)"
    using has_shape_T [OF b(2)] lt by simp
  then show ?thesis
    using SUBJECT f b by (simp add: normalise_timeseries_def col_def [symmetric] shp)
qed

theorem normalise_timeseries_shape_witness:
  "has_shape (3, 2) [[1, 2], [3, 4], [5, 7::real]] \<and>
   (\<exists>r. normalise_timeseries [[1, 2], [3, 4], [5, 7]] ROI = Inr r \<and> has_shape (2, 3) r) \<and>
   (\<exists>r. normalise_timeseries [[1, 2], [3, 4], [5, 7]] SUBJECT = Inr r \<and> has_shape (2, 3) r) \<and>
   (\<exists>r. normalise_timeseries [[1, 2], [3, 4], [5, 7]] NONE = Inr r \<and> has_shape (2, 3) r)"
  using normalise_timeseries_shape [of 3 2 "[[1, 2], [3, 4], [5, 7]]" ROI]
    normalise_timeseries_shape [of 3 2 "[[1, 2], [3, 4], [5, 7]]" SUBJECT]
    normalise_timeseries_shape [of 3 2 "[[1, 2], [3, 4], [5, 7]]" NONE]
  by (simp add: has_shape_def)

subsection \<open>C8\<close>

text \<open>
  C8, as the code has it. The builder is not pure: it returns a new array, but it
  writes into its argument first. After the call on a square matrix the caller's
  matrix has kept its shape, every entry on or below the diagonal within the first
  \<open>num_nodes\<close> rows is 0, and every entry is either unchanged or 0.
\<close>

theorem caller_array_overwritten:
  assumes sq: "has_shape (d, d) adj_array" and nd: "num_nodes \<le> d"
    and spec: "argsort_spec argsort"
  shows "\<exists>caller_array result.
     threshold_adj_array argsort adj_array threshold num_nodes = (caller_array, Inr result) \<and>
     has_shape (d, d) caller_array \<and>
     (\<forall>i<num_nodes. \<forall>j\<le>i. caller_array ! i ! j = 0) \<and>
     (\<forall>i<d. \<forall>j<d. caller_array ! i ! j = adj_array ! i ! j \<or> caller_array ! i ! j = 0)"
proof -
  define a1 where "a1 = put adj_array (tril_indices num_nodes) 0"
  define dropped where "dropped = slice_from (num_to_filter threshold num_nodes)
        (ranked_positions argsort a1)"
  define a2 where "a2 = put a1 dropped 0"
  have res: "threshold_adj_array argsort adj_array threshold num_nodes
      = (a2, Inr (put (add a2 (T a2)) (diag_indices num_nodes) 1))"
    by (simp add: threshold_adj_array_unfold [OF sq nd spec] a2_def a1_def dropped_def Let_def)
  have sq1: "has_shape (d, d) a1" using sq by (simp add: a1_def)
  have sq2: "has_shape (d, d) a2" using sq1 by (simp add: a2_def)
  have e1: "a1 ! i ! j = (if j \<le> i \<and> i < num_nodes then 0 else adj_array ! i ! j)"
    if "i < d" "j < d" for i j
    using that sq by (simp add: a1_def put_nth has_shape_nth)
  have e2: "a2 ! i ! j = (if (i, j) \<in> set dropped then 0 else a1 ! i ! j)"
    if "i < d" "j < d" for i j
    using that sq1 by (simp add: a2_def put_nth has_shape_nth)
  have low: "\<forall>i<num_nodes. \<forall>j\<le>i. a2 ! i ! j = 0"
    using nd by (auto simp: e1 e2)
  have rest: "\<forall>i<d. \<forall>j<d. a2 ! i ! j = adj_array ! i ! j \<or> a2 ! i ! j = 0"
    by (auto simp: e1 e2)
  from res sq2 low rest show ?thesis by blast
qed

theorem caller_array_overwritten_witness:
  "has_shape (2, 2) [[1, 2], [3, 4::real]] \<and>
   (\<exists>caller_array result.
     threshold_adj_array stable_argsort [[1, 2], [3, 4]] 100 2 = (caller_array, Inr result) \<and>
     has_shape (2, 2) caller_array \<and>
     (\<forall>i<2. \<forall>j\<le>i. caller_array ! i ! j = 0) \<and>
     (\<forall>i<2. \<forall>j<2. caller_array ! i ! j = [[1, 2], [3, 4]] ! i ! j \<or> caller_array ! i ! j = 0))"
  using caller_array_overwritten [OF _ _ stable_argsort_spec, of 2 "[[1, 2], [3, 4]]" 2 100]
  by (simp add: has_shape_def)

text \<open>
  C8, as stated, fails: the call on \<open>[[1, 2], [3, 4]]\<close> with threshold 100 leaves
  \<open>[[0, 2], [0, 0]]\<close> in the caller's array.
\<close>

theorem caller_array_unchanged_counterexample:
  "fst (threshold_adj_array stable_argsort [[1, 2], [3, 4]] 100 2) = [[0, 2], [0, 0]] \<and>
   fst (threshold_adj_array stable_argsort [[1, 2], [3, 4]] 100 2) \<noteq> [[1, 2], [3, 4]]"
proof -
  have nf: "num_to_filter 100 2 = 1" using num_to_filter_std [of 100 2] by simp
  have "fst (threshold_adj_array stable_argsort [[1, 2], [3, 4]] 100 2) = [[0, 2], [0, 0]]"
    unfolding threshold_adj_array_def nf by code_simp
  then show ?thesis by simp
qed

subsection \<open>C9\<close>

text \<open>
  C9. On a block of \<open>N \<ge> 1\<close> nodes and \<open>L > N\<close> timepoints on whose rows every
  descriptor returns a value, the descriptor bank returns a matrix with one row per node
  and exactly 16 columns; row \<open>i\<close> holds the descriptors of series \<open>i\<close> in the order mean,
  standard deviation, min, max, skewness, kurtosis, approximate entropy, permutation
  entropy, sample entropy, spectral entropy, SVD entropy, DFA exponent, Higuchi FD,
  Katz FD, Petrosian FD, Hurst exponent.
\<close>

theorem calculate_stats_features_shape:
  assumes sh: "has_shape (N, L) timeseries" and N: "0 < N" and NL: "N < L"
    and ok: "\<forall>d. \<forall>row\<in>set timeseries. \<exists>v. desc d row = Inr v"
  shows "\<exists>m. calculate_stats_features desc timeseries = Inr m \<and> has_shape (N, 16) m \<and>
     (\<forall>i<N. m ! i =
        [projr (desc Mean (timeseries ! i)), projr (desc Std (timeseries ! i)),
         projr (desc Min (timeseries ! i)), projr (desc Max (timeseries ! i)),
         projr (desc Skew (timeseries ! i)), projr (desc Kurtosis (timeseries ! i)),
         projr (desc AppEntropy (timeseries ! i)), projr (desc PermEntropy (timeseries ! i)),
         projr (desc SampleEntropy (timeseries ! i)),
         projr (desc SpectralEntropy (timeseries ! i)),
         projr (desc SvdEntropy (timeseries ! i)),
         projr (desc DetrendedFluctuation (timeseries ! i)),
         projr (desc HiguchiFd (timeseries ! i)), projr (desc KatzFd (timeseries ! i)),
         projr (desc PetrosianFd (timeseries ! i)), projr (desc HurstRs (timeseries ! i))])"
  using calculate_stats_features_rows [OF assms] by (simp add: merged_stats_order_def)

theorem calculate_stats_features_shape_witness:
  "has_shape (2, 1200) ramp_block \<and>
   (\<exists>m. calculate_stats_features (\<lambda>d series. Inr (d, series)) ramp_block = Inr m \<and>
        has_shape (2, 16) m \<and>
        m ! 0 = [(Mean, ramp_block ! 0), (Std, ramp_block ! 0), (Min, ramp_block ! 0),
         (Max, ramp_block ! 0), (Skew, ramp_block ! 0), (Kurtosis, ramp_block ! 0),
         (AppEntropy, ramp_block ! 0), (PermEntropy, ramp_block ! 0),
         (SampleEntropy, ramp_block ! 0), (SpectralEntropy, ramp_block ! 0),
         (SvdEntropy, ramp_block ! 0), (DetrendedFluctuation, ramp_block ! 0),
         (HiguchiFd, ramp_block ! 0), (KatzFd, ramp_block ! 0),
         (PetrosianFd, ramp_block ! 0), (HurstRs, ramp_block ! 0)] \<and>
        m ! 1 = [(Mean, ramp_block ! 1), (Std, ramp_block ! 1), (Min, ramp_block ! 1),
         (Max, ramp_block ! 1), (Skew, ramp_block ! 1), (Kurtosis, ramp_block ! 1),
         (AppEntropy, ramp_block ! 1), (PermEntropy, ramp_block ! 1),
         (SampleEntropy, ramp_block ! 1), (SpectralEntropy, ramp_block ! 1),
         (SvdEntropy, ramp_block ! 1), (DetrendedFluctuation, ramp_block ! 1),
         (HiguchiFd, ramp_block ! 1), (KatzFd, ramp_block ! 1),
         (PetrosianFd, ramp_block ! 1), (HurstRs, ramp_block ! 1)])"
proof -
  have ok: "\<forall>d. \<forall>row\<in>set ramp_block. \<exists>v. (\<lambda>d series. Inr (d, series)) d row = Inr v"
    by simp
  from calculate_stats_features_shape [OF has_shape_ramp_block _ _ ok]
  obtain m where m: "calculate_stats_features (\<lambda>d series. Inr (d, series)) ramp_block = Inr m"
    "has_shape (2, 16) m"
    and rows: "\<And>i. i < 2 \<Longrightarrow> m ! i =
        [projr (Inr (Mean, ramp_block ! i)), projr (Inr (Std, ramp_block ! i)),
         projr (Inr (Min, ramp_block ! i)), projr (Inr (Max, ramp_block ! i)),
         projr (Inr (Skew, ramp_block ! i)), projr (Inr (Kurtosis, ramp_block ! i)),
         projr (Inr (AppEntropy, ramp_block ! i)), projr (Inr (PermEntropy, ramp_block ! i)),
         projr (Inr (SampleEntropy, ramp_block ! i)),
         projr (Inr (SpectralEntropy, ramp_block ! i)),
         projr (Inr (SvdEntropy, ramp_block ! i)),
         projr (Inr (DetrendedFluctuation, ramp_block ! i)),
         projr (Inr (HiguchiFd, ramp_block ! i)), projr (Inr (KatzFd, ramp_block ! i)),
         projr (Inr (PetrosianFd, ramp_block ! i)), projr (Inr (HurstRs, ramp_block ! i))]"
    by force
  have r0: "m ! 0 = [(Mean, ramp_block ! 0), (Std, ramp_block ! 0), (Min, ramp_block ! 0),
         (Max, ramp_block ! 0), (Skew, ramp_block ! 0), (Kurtosis, ramp_block ! 0),
         (AppEntropy, ramp_block ! 0), (PermEntropy, ramp_block ! 0),
         (SampleEntropy, ramp_block ! 0), (SpectralEntropy, ramp_block ! 0),
         (SvdEntropy, ramp_block ! 0), (DetrendedFluctuation, ramp_block ! 0),
         (HiguchiFd, ramp_block ! 0), (KatzFd, ramp_block ! 0),
         (PetrosianFd, ramp_block ! 0), (HurstRs, ramp_block ! 0)]"
    using rows [of 0] by (simp only: sum.sel)
  have r1: "m ! 1 = [(Mean, ramp_block ! 1), (Std, ramp_block ! 1), (Min, ramp_block ! 1),
         (Max, ramp_block ! 1), (Skew, ramp_block ! 1), (Kurtosis, ramp_block ! 1),
         (AppEntropy, ramp_block ! 1), (PermEntropy, ramp_block ! 1),
         (SampleEntropy, ramp_block ! 1), (SpectralEntropy, ramp_block ! 1),
         (SvdEntropy, ramp_block ! 1), (DetrendedFluctuation, ramp_block ! 1),
         (HiguchiFd, ramp_block ! 1), (KatzFd, ramp_block ! 1),
         (PetrosianFd, ramp_block ! 1), (HurstRs, ramp_block ! 1)]"
    using rows [of 1] by (simp only: sum.sel)
  show ?thesis
    by (rule conjI [OF has_shape_ramp_block], rule exI [of _ m]) (intro conjI m r0 r1)
qed

subsection \<open>C10\<close>

text \<open>
  C10. The descriptor bank asserts that its block has strictly more columns
  (timepoints) than rows (nodes): on every block with at least as many rows as columns
  the call ends in an assertion error, whatever the descriptors would have done on it,
  so no descriptor is computed.
\<close>

theorem calculate_stats_features_assertion:
  "ncols timeseries \<le> nrows timeseries \<Longrightarrow>
     calculate_stats_features desc timeseries = Inl AssertionError"
  by (simp add: calculate_stats_features_def)

theorem calculate_stats_features_assertion_witness:
  "ncols [[1, 2], [3, 4::real]] \<le> nrows [[1, 2], [3, 4::real]] \<and>
   calculate_stats_features (\<lambda>d s. Inr (0::real)) [[1, 2], [3, 4]] = Inl AssertionError"
  using calculate_stats_features_assertion [of "[[1, 2], [3, 4]]" "\<lambda>d s. Inr (0::real)"]
  by (simp add: ncols_def nrows_def)

end
